theory Spec2Isabelle
  imports Main "HOL-Library.Word"
begin

unbundle bit_operations_syntax

section \<open>Frame descriptors of the OCaml runtime (runtime/frame_descriptors.c)\<close>

text \<open>
  The embedding follows \<^verbatim>\<open>runtime/frame_descriptors.c\<close> function by function.
  Pointers and \<^verbatim>\<open>uintnat\<close>/\<^verbatim>\<open>intnat\<close> values are 64-bit words (the runtime's
  64-bit targets); \<^verbatim>\<open>NULL\<close> is the word 0.  \<^verbatim>\<open>intnat\<close> comparisons are the signed
  comparison on words, \<^verbatim>\<open>uintnat\<close> comparisons the unsigned one.
\<close>

subsection \<open>Memory holding the raw frame tables\<close>

type_synonym addr = "64 word"

text \<open>
  The raw tables are emitted by ocamlopt and only ever read.  The three loads are the
  three access widths the file uses: a byte (\<^verbatim>\<open>*p\<close> on an \<^verbatim>\<open>unsigned char*\<close>), an
  \<^verbatim>\<open>unsigned short\<close> field, and a machine word (\<^verbatim>\<open>retaddr\<close>, and the leading count
  of a table read through \<^verbatim>\<open>intnat*\<close>).
\<close>

record memory =
  load8 :: "addr \<Rightarrow> 8 word"
  load16 :: "addr \<Rightarrow> 16 word"
  load_word :: "addr \<Rightarrow> 64 word"

text \<open>
  Modelled from the spec: the declaration of \<^verbatim>\<open>frame_descr\<close> lives in
  \<^verbatim>\<open>caml/frame_descriptors.h\<close>, which is not part of the sources at hand.  The binary
  record format of the specification gives the fields in order: \<^verbatim>\<open>retaddr\<close> (a
  machine word), \<^verbatim>\<open>frame_size\<close> (16 bits), \<^verbatim>\<open>num_live\<close> (16 bits), then
  \<^verbatim>\<open>live_ofs\<close> (16 bits each); hence the byte offsets 0, 8, 10 and 12.
\<close>

definition retaddr :: "memory \<Rightarrow> addr \<Rightarrow> 64 word" where
  "retaddr m d = load_word m d"

definition frame_size :: "memory \<Rightarrow> addr \<Rightarrow> 16 word" where
  "frame_size m d = load16 m (d + 8)"

definition num_live :: "memory \<Rightarrow> addr \<Rightarrow> 16 word" where
  "num_live m d = load16 m (d + 10)"

definition live_ofs_addr :: "addr \<Rightarrow> 16 word \<Rightarrow> addr" where
  "live_ofs_addr d i = d + 12 + 2 * ucast i"

text \<open>
  Modelled from the spec: the macro \<^verbatim>\<open>Align_to(p, ty)\<close> is defined in the absent header;
  the specification says it aligns the cursor up to a boundary of \<^verbatim>\<open>sizeof(ty)\<close> bytes
  (4 for \<^verbatim>\<open>uint32_t\<close>, 8 for \<^verbatim>\<open>void*\<close>).  The second argument is that size, a power of
  two.
\<close>

definition Align_to :: "addr \<Rightarrow> addr \<Rightarrow> addr" where
  "Align_to p sz = (p + sz - 1) AND (- sz)"

datatype error =
    Out_of_memory
  | Assert_failed
  | Out_of_bounds
  | Invalid_pointer
  | Invalid_free

subsection \<open>The record parser: \<^verbatim>\<open>next_frame_descr\<close>\<close>

text \<open>
  \<^verbatim>\<open>CAMLassert\<close> is a branch of the model: a record whose return address is below 4096
  stops the debug runtime; the pointer arithmetic below the assertion is
  \<open>next_frame_descr_ptr\<close>.  \<^verbatim>\<open>num_allocs\<close> is an \<^verbatim>\<open>unsigned char\<close>, promoted before
  the additions, so \<^verbatim>\<open>num_allocs + 1\<close> never wraps at 256.
\<close>

definition next_frame_descr_ptr :: "memory \<Rightarrow> addr \<Rightarrow> addr" where
  "next_frame_descr_ptr m d =
     (let num_allocs0 = (0 :: 8 word);
          p0 = live_ofs_addr d (num_live m d);
          (num_allocs, p1) =
            (if frame_size m d AND 2 \<noteq> 0
             then (load8 m p0, p0 + (ucast (load8 m p0) + 1))
             else (num_allocs0, p0));
          p2 =
            (if frame_size m d AND 1 \<noteq> 0 \<and> frame_size m d \<noteq> - 1
             then Align_to p1 4 + 4 * (if frame_size m d AND 2 \<noteq> 0 then ucast num_allocs else 1)
             else p1)
      in Align_to p2 8)"

definition next_frame_descr :: "memory \<Rightarrow> addr \<Rightarrow> error + addr" where
  "next_frame_descr m d =
     (if retaddr m d < 4096 then Inl Assert_failed
      else Inr (next_frame_descr_ptr m d))"

text \<open>
  The same computation written after the words of the specification (section 4.1): the
  two flag bits are tested as bits, the sentinel is the all-ones 16-bit word, and the
  cursor moves through the four documented steps.
\<close>

definition has_alloc_lengths :: "16 word \<Rightarrow> bool" where
  "has_alloc_lengths fs = bit fs 1"

definition has_debug_info :: "16 word \<Rightarrow> bool" where
  "has_debug_info fs = (bit fs 0 \<and> fs \<noteq> 0xFFFF)"

definition spec_next_record :: "memory \<Rightarrow> addr \<Rightarrow> addr" where
  "spec_next_record m d =
     (let fs = load16 m (d + 8);
          live = load16 m (d + 10);
          after_live = d + 8 + 2 + 2 + 2 * ucast live;
          n_allocs = load8 m after_live;
          after_allocs =
            (if has_alloc_lengths fs then after_live + 1 + ucast n_allocs else after_live);
          debug_words = (if has_alloc_lengths fs then ucast n_allocs else 1);
          after_debug =
            (if has_debug_info fs then Align_to after_allocs 4 + 4 * debug_words
             else after_allocs)
      in Align_to after_debug 8)"

subsection \<open>The index builder: \<^verbatim>\<open>build_frame_descriptors\<close>\<close>

text \<open>
  Modelled from the spec: the macro \<^verbatim>\<open>Hash_retaddr(addr, mask)\<close> is defined in the absent
  header.  The specification only says that the slot is \<^verbatim>\<open>hash(retaddr) & mask\<close>, so
  the hash function is a parameter of everything that follows.
\<close>

type_synonym hash_fn = "64 word \<Rightarrow> 64 word"

definition Hash_retaddr :: "hash_fn \<Rightarrow> 64 word \<Rightarrow> 64 word \<Rightarrow> 64 word" where
  "Hash_retaddr hash a msk = hash a AND msk"

text \<open>
  Modelled from the spec: \<^verbatim>\<open>caml_frame_descrs\<close> is declared in the absent header; the
  file uses its two fields \<^verbatim>\<open>descriptors\<close> (the array of record pointers) and
  \<^verbatim>\<open>mask\<close> (the table size minus one).
\<close>

record caml_frame_descrs =
  descriptors :: addr
  mask_fd :: "64 word"

record frametable_version =
  table :: caml_frame_descrs
  free_prev_after_cycle :: "64 word"
  prev :: addr

definition No_need_to_free :: "64 word" where
  "No_need_to_free = - 1"

text \<open>
  The blocks obtained from \<^verbatim>\<open>caml_stat_alloc\<close>: a block is raw until the code has
  written it, then it is a version node or an array of record pointers.
\<close>

datatype obj =
    Raw
  | Version frametable_version
  | Array "addr list"

type_synonym heap = "addr \<Rightarrow> obj option"

text \<open>
  Modelled from the spec: \<^verbatim>\<open>caml_stat_alloc\<close> and \<^verbatim>\<open>caml_stat_free\<close> belong to the
  runtime's allocator, which is not part of the sources at hand.  The outcome of each
  allocation is chosen by the environment and handed to the model; according to the
  specification a failed allocation is fatal, so the caller stops there.  Freeing a
  block that is not allocated is an error of its own.
\<close>

datatype alloc_result = Alloc_failed | Alloced addr

definition caml_stat_alloc :: "heap \<Rightarrow> alloc_result \<Rightarrow> error + (addr \<times> heap)" where
  "caml_stat_alloc hp r =
     (case r of
        Alloc_failed \<Rightarrow> Inl Out_of_memory
      | Alloced a \<Rightarrow> Inr (a, hp(a \<mapsto> Raw)))"

definition caml_stat_free :: "heap \<Rightarrow> addr \<Rightarrow> error + heap" where
  "caml_stat_free hp a =
     (if hp a = None then Inl Invalid_free else Inr (hp(a := None)))"

text \<open>
  The chain of \<^verbatim>\<open>link\<close> nodes is the list of the registered table pointers, most
  recent first; \<^verbatim>\<open>iter_list\<close> is recursion over that list.  \<^verbatim>\<open>cons\<close> allocates the
  node, so it can fail.
\<close>

type_synonym link = "addr list"

definition cons :: "alloc_result \<Rightarrow> addr \<Rightarrow> link \<Rightarrow> error + link" where
  "cons r frametable tail =
     (case r of
        Alloc_failed \<Rightarrow> Inl Out_of_memory
      | Alloced lnk \<Rightarrow> Inr (frametable # tail))"

text \<open>First loop: \<^verbatim>\<open>num_descr += *lnk->frametable\<close>, on \<^verbatim>\<open>intnat\<close>.\<close>

fun count_descrs :: "memory \<Rightarrow> link \<Rightarrow> 64 word \<Rightarrow> 64 word" where
  "count_descrs m [] num_descr = num_descr"
| "count_descrs m (frametable # lnk) num_descr =
     count_descrs m lnk (num_descr + load_word m frametable)"

text \<open>
  \<^verbatim>\<open>while (tblsize < 2 * num_descr) tblsize *= 2;\<close> on \<^verbatim>\<open>intnat\<close>: the comparison is
  signed and the arithmetic wraps, so the loop need not end; not returning is
  \<open>None\<close>.
\<close>

partial_function (option) grow_tblsize :: "64 word \<Rightarrow> 64 word \<Rightarrow> 64 word option" where
  "grow_tblsize tblsize num_descr =
     (if tblsize <s 2 * num_descr then grow_tblsize (tblsize * 2) num_descr
      else Some tblsize)"

text \<open>
  \<^verbatim>\<open>while (table.descriptors[h] != NULL) h = (h+1) & table.mask;\<close>  The loop runs
  forever on a table without an empty slot (\<open>None\<close>); an index outside the array is
  an error.  The result is the index of the first empty slot met.
\<close>

partial_function (option) probe_free ::
  "addr list \<Rightarrow> 64 word \<Rightarrow> 64 word \<Rightarrow> (error + 64 word) option" where
  "probe_free descr msk h =
     (if unat h < length descr
      then (if descr ! unat h \<noteq> 0 then probe_free descr msk ((h + 1) AND msk)
            else Some (Inr h))
      else Some (Inl Out_of_bounds))"

text \<open>
  The body of \<^verbatim>\<open>for (j = 0; j < len; j++)\<close>, run for the \<open>n\<close> remaining rounds
  (\<open>n\<close> starts as \<^verbatim>\<open>len\<close> when that is positive, and as 0 otherwise).  An error returns
  the array as it stands.
\<close>

fun fill_records ::
  "hash_fn \<Rightarrow> memory \<Rightarrow> 64 word \<Rightarrow> 64 word \<Rightarrow> nat \<Rightarrow> addr \<Rightarrow> addr list \<Rightarrow>
     ((error \<times> addr list) + addr list) option" where
  "fill_records hash m tblsize msk 0 d descr = Some (Inr descr)"
| "fill_records hash m tblsize msk (Suc n) d descr =
     (case probe_free descr msk (Hash_retaddr hash (retaddr m d) (tblsize - 1)) of
        None \<Rightarrow> None
      | Some (Inl e) \<Rightarrow> Some (Inl (e, descr))
      | Some (Inr h) \<Rightarrow>
          (case next_frame_descr m d of
             Inl e \<Rightarrow> Some (Inl (e, descr[unat h := d]))
           | Inr d' \<Rightarrow> fill_records hash m tblsize msk n d' (descr[unat h := d])))"

text \<open>
  Second loop over the chain: \<^verbatim>\<open>len = *tbl\<close>, and the first record is at
  \<^verbatim>\<open>tbl + 1\<close>, one machine word further.
\<close>

fun fill_tables ::
  "hash_fn \<Rightarrow> memory \<Rightarrow> 64 word \<Rightarrow> 64 word \<Rightarrow> link \<Rightarrow> addr list \<Rightarrow>
     ((error \<times> addr list) + addr list) option" where
  "fill_tables hash m tblsize msk [] descr = Some (Inr descr)"
| "fill_tables hash m tblsize msk (tbl # lnk) descr =
     (case fill_records hash m tblsize msk (nat (sint (load_word m tbl))) (tbl + 8) descr of
        None \<Rightarrow> None
      | Some (Inl e) \<Rightarrow> Some (Inl e)
      | Some (Inr descr') \<Rightarrow> fill_tables hash m tblsize msk lnk descr')"

text \<open>
  \<^verbatim>\<open>build_frame_descriptors\<close>.  The array is filled in a local list and stored in the
  heap block when the function leaves; on an error the block holds the array as it was
  at that moment.
\<close>

definition build_frame_descriptors ::
  "hash_fn \<Rightarrow> memory \<Rightarrow> heap \<Rightarrow> alloc_result \<Rightarrow> link \<Rightarrow>
     ((error \<times> heap) + (caml_frame_descrs \<times> heap)) option" where
  "build_frame_descriptors hash m hp r frametables =
     (case grow_tblsize 4 (count_descrs m frametables 0) of
        None \<Rightarrow> None
      | Some tblsize \<Rightarrow>
          (case caml_stat_alloc hp r of
             Inl e \<Rightarrow> Some (Inl (e, hp))
           | Inr (a, hp1) \<Rightarrow>
               (case fill_tables hash m tblsize (tblsize - 1) frametables
                       (replicate (nat (sint tblsize)) 0) of
                  None \<Rightarrow> None
                | Some (Inl (e, descr)) \<Rightarrow> Some (Inl (e, hp1(a \<mapsto> Array descr)))
                | Some (Inr descr) \<Rightarrow>
                    Some (Inr (\<lparr>descriptors = a, mask_fd = tblsize - 1\<rparr>,
                               hp1(a \<mapsto> Array descr))))))"

subsection \<open>Lookup: \<^verbatim>\<open>caml_find_frame_descr\<close>\<close>

text \<open>
  The probe loop of the lookup.  \<open>Some (Inr 0)\<close> is the \<^verbatim>\<open>NULL\<close> result, \<open>None\<close> a
  loop that never leaves.
\<close>

partial_function (option) find_loop ::
  "memory \<Rightarrow> addr list \<Rightarrow> 64 word \<Rightarrow> 64 word \<Rightarrow> 64 word \<Rightarrow> (error + addr) option" where
  "find_loop m descr msk pc h =
     (if unat h < length descr
      then (if descr ! unat h = 0 then Some (Inr 0)
            else if retaddr m (descr ! unat h) = pc then Some (Inr (descr ! unat h))
            else find_loop m descr msk pc ((h + 1) AND msk))
      else Some (Inl Out_of_bounds))"

definition caml_find_frame_descr ::
  "hash_fn \<Rightarrow> memory \<Rightarrow> heap \<Rightarrow> caml_frame_descrs \<Rightarrow> 64 word \<Rightarrow> (error + addr) option" where
  "caml_find_frame_descr hash m hp fds pc =
     (case hp (descriptors fds) of
        Some (Array descr) \<Rightarrow>
          find_loop m descr (mask_fd fds) pc (Hash_retaddr hash pc (mask_fd fds))
      | _ \<Rightarrow> Some (Inl Invalid_pointer))"

subsection \<open>The versioned table manager\<close>

text \<open>
  The globals of the file: the allocator's blocks, the chain \<^verbatim>\<open>frametables\<close> and the
  atomic word \<^verbatim>\<open>current_frametable\<close>.  The operations are modelled one at a time
  (each call runs to its end before the next starts), so \<^verbatim>\<open>descr_mutex\<close> is always
  free when a call begins and its lock and unlock leave no trace.  The counter
  \<^verbatim>\<open>caml_major_cycles_completed\<close> belongs to the major collector; its value at the
  time of a call is the argument \<open>cycles\<close>.  A call that stops on an error returns
  the state it leaves behind.
\<close>

record state =
  heap :: heap
  frametables :: link
  current_frametable :: addr

text \<open>
  \<^verbatim>\<open>for (i = 0; caml_frametable[i] != 0; i++) frametables = cons(...)\<close>, over the
  contents of the array \<^verbatim>\<open>caml_frametable\<close>; \<open>r_links i\<close> is the outcome of the
  allocation of round \<open>i\<close>.  An array without its closing 0 is read out of bounds.
\<close>

fun init_loop ::
  "(nat \<Rightarrow> alloc_result) \<Rightarrow> nat \<Rightarrow> addr list \<Rightarrow> link \<Rightarrow> (error \<times> link) + link" where
  "init_loop r_links i [] fts = Inl (Out_of_bounds, fts)"
| "init_loop r_links i (t # ts) fts =
     (if t = 0 then Inr fts
      else (case cons (r_links i) t fts of
              Inl e \<Rightarrow> Inl (e, fts)
            | Inr fts' \<Rightarrow> init_loop r_links (Suc i) ts fts'))"

definition caml_init_frame_descriptors ::
  "hash_fn \<Rightarrow> memory \<Rightarrow> addr list \<Rightarrow> (nat \<Rightarrow> alloc_result) \<Rightarrow> alloc_result \<Rightarrow>
     alloc_result \<Rightarrow> state \<Rightarrow> ((error \<times> state) + state) option" where
  "caml_init_frame_descriptors hash m caml_frametable r_links r_ft r_tbl s =
     (case init_loop r_links 0 caml_frametable (frametables s) of
        Inl (e, fts) \<Rightarrow> Some (Inl (e, s\<lparr>frametables := fts\<rparr>))
      | Inr fts \<Rightarrow>
          (case caml_stat_alloc (heap s) r_ft of
             Inl e \<Rightarrow> Some (Inl (e, s\<lparr>frametables := fts\<rparr>))
           | Inr (ft, hp1) \<Rightarrow>
               (case build_frame_descriptors hash m hp1 r_tbl fts of
                  None \<Rightarrow> None
                | Some (Inl (e, hp2)) \<Rightarrow> Some (Inl (e, s\<lparr>heap := hp2, frametables := fts\<rparr>))
                | Some (Inr (tbl, hp2)) \<Rightarrow>
                    Some (Inr
                      \<lparr>heap = hp2(ft \<mapsto> Version
                                \<lparr>table = tbl, free_prev_after_cycle = No_need_to_free,
                                 prev = 0\<rparr>),
                       frametables = fts,
                       current_frametable = ft\<rparr>))))"

definition caml_register_frametable ::
  "hash_fn \<Rightarrow> memory \<Rightarrow> 64 word \<Rightarrow> addr \<Rightarrow> alloc_result \<Rightarrow> alloc_result \<Rightarrow>
     alloc_result \<Rightarrow> state \<Rightarrow> ((error \<times> state) + state) option" where
  "caml_register_frametable hash m cycles tbl r_link r_ft r_tbl s =
     (case cons r_link tbl (frametables s) of
        Inl e \<Rightarrow> Some (Inl (e, s))
      | Inr fts \<Rightarrow>
          (if current_frametable s = 0
           then Some (Inl (Assert_failed, s\<lparr>frametables := fts\<rparr>))
           else
             (case caml_stat_alloc (heap s) r_ft of
                Inl e \<Rightarrow> Some (Inl (e, s\<lparr>frametables := fts\<rparr>))
              | Inr (ft, hp1) \<Rightarrow>
                  (case build_frame_descriptors hash m hp1 r_tbl fts of
                     None \<Rightarrow> None
                   | Some (Inl (e, hp2)) \<Rightarrow>
                       Some (Inl (e, s\<lparr>heap := hp2, frametables := fts\<rparr>))
                   | Some (Inr (tbl', hp2)) \<Rightarrow>
                       Some (Inr
                         \<lparr>heap = hp2(ft \<mapsto> Version
                                   \<lparr>table = tbl', free_prev_after_cycle = cycles,
                                    prev = current_frametable s\<rparr>),
                          frametables = fts,
                          current_frametable = ft\<rparr>)))))"

text \<open>
  \<^verbatim>\<open>caml_get_frame_descrs\<close>.  The comparison with the counter is unsigned.  Every
  access through a pointer that is not a live block of the expected kind is an error.
\<close>

definition caml_get_frame_descrs ::
  "64 word \<Rightarrow> state \<Rightarrow> (error \<times> state) + (caml_frame_descrs \<times> state)" where
  "caml_get_frame_descrs cycles s =
     (if current_frametable s = 0 then Inl (Assert_failed, s)
      else
        (case heap s (current_frametable s) of
           Some (Version ft) \<Rightarrow>
             (if free_prev_after_cycle ft < cycles
              then
                (if prev ft \<noteq> 0
                 then
                   (case heap s (prev ft) of
                      Some (Version old) \<Rightarrow>
                        (case caml_stat_free (heap s) (descriptors (table old)) of
                           Inl e \<Rightarrow> Inl (e, s)
                         | Inr hp1 \<Rightarrow>
                             (case caml_stat_free hp1 (prev ft) of
                                Inl e \<Rightarrow> Inl (e, s\<lparr>heap := hp1\<rparr>)
                              | Inr hp2 \<Rightarrow>
                                  (case hp2 (current_frametable s) of
                                     Some (Version ft') \<Rightarrow>
                                       Inr (table ft',
                                            s\<lparr>heap := hp2(current_frametable s \<mapsto> Version
                                                 (ft'\<lparr>prev := 0,
                                                      free_prev_after_cycle := No_need_to_free\<rparr>))\<rparr>)
                                   | _ \<Rightarrow> Inl (Invalid_pointer, s\<lparr>heap := hp2\<rparr>))))
                    | _ \<Rightarrow> Inl (Invalid_pointer, s))
                 else Inr (table ft, s))
              else Inr (table ft, s))
         | _ \<Rightarrow> Inl (Invalid_pointer, s)))"

text \<open>
  The same function cut at the points where another thread can run in between.
  \<open>get_load\<close> is the load of the current pointer with the assertion.  \<open>get_compare\<close>
  is the load of the marker of \<^verbatim>\<open>ft\<close>, here \<open>p\<close>, and its comparison with the counter.
  \<open>get_locked\<close> is what runs between \<^verbatim>\<open>caml_plat_lock\<close> and \<^verbatim>\<open>caml_plat_unlock\<close>: the
  test of \<^verbatim>\<open>ft->prev\<close>, the two calls of \<^verbatim>\<open>caml_stat_free\<close> and the two stores.
  \<open>get_return\<close> is the last line, the read of \<^verbatim>\<open>ft->table\<close>.
\<close>

definition get_load :: "state \<Rightarrow> error + addr" where
  "get_load s =
     (if current_frametable s = 0 then Inl Assert_failed else Inr (current_frametable s))"

definition get_compare :: "64 word \<Rightarrow> addr \<Rightarrow> state \<Rightarrow> error + bool" where
  "get_compare cycles p s =
     (case heap s p of
        Some (Version ft) \<Rightarrow> Inr (free_prev_after_cycle ft < cycles)
      | _ \<Rightarrow> Inl Invalid_pointer)"

definition get_locked :: "addr \<Rightarrow> state \<Rightarrow> (error \<times> state) + state" where
  "get_locked p s =
     (case heap s p of
        Some (Version ft) \<Rightarrow>
          (if prev ft \<noteq> 0
           then
             (case heap s (prev ft) of
                Some (Version old) \<Rightarrow>
                  (case caml_stat_free (heap s) (descriptors (table old)) of
                     Inl e \<Rightarrow> Inl (e, s)
                   | Inr hp1 \<Rightarrow>
                       (case caml_stat_free hp1 (prev ft) of
                          Inl e \<Rightarrow> Inl (e, s\<lparr>heap := hp1\<rparr>)
                        | Inr hp2 \<Rightarrow>
                            (case hp2 p of
                               Some (Version ft') \<Rightarrow>
                                 Inr (s\<lparr>heap := hp2(p \<mapsto> Version
                                        (ft'\<lparr>prev := 0,
                                             free_prev_after_cycle := No_need_to_free\<rparr>))\<rparr>)
                             | _ \<Rightarrow> Inl (Invalid_pointer, s\<lparr>heap := hp2\<rparr>))))
              | _ \<Rightarrow> Inl (Invalid_pointer, s))
           else Inr s)
      | _ \<Rightarrow> Inl (Invalid_pointer, s))"

definition get_return :: "addr \<Rightarrow> state \<Rightarrow> error + caml_frame_descrs" where
  "get_return p s =
     (case heap s p of
        Some (Version ft) \<Rightarrow> Inr (table ft)
      | _ \<Rightarrow> Inl Invalid_pointer)"

subsection \<open>The records of a chain of tables\<close>

text \<open>
  The records the second loop of \<^verbatim>\<open>build_frame_descriptors\<close> visits, in the order it
  visits them: table after table along the chain, and inside a table from the first
  record on with \<^verbatim>\<open>next_frame_descr\<close>.
\<close>

fun frame_records :: "memory \<Rightarrow> nat \<Rightarrow> addr \<Rightarrow> addr list" where
  "frame_records m 0 d = []"
| "frame_records m (Suc n) d = d # frame_records m n (next_frame_descr_ptr m d)"

definition table_records :: "memory \<Rightarrow> addr \<Rightarrow> addr list" where
  "table_records m tbl = frame_records m (nat (sint (load_word m tbl))) (tbl + 8)"

definition all_records :: "memory \<Rightarrow> link \<Rightarrow> addr list" where
  "all_records m fts = concat (map (table_records m) fts)"

text \<open>
  The contract with the code generator.  The leading count of a table is not negative,
  and the chain holds at most \<open>2 ^ 61\<close> records, so that neither the sum of the counts
  nor the doubling of the table size leaves the range of \<^verbatim>\<open>intnat\<close>.  A record is not
  at the null address and its return address is at least 4096.  No two records share a
  return address.
\<close>

definition counts_ok :: "memory \<Rightarrow> link \<Rightarrow> bool" where
  "counts_ok m fts \<longleftrightarrow>
     (\<forall>tbl \<in> set fts. 0 \<le> sint (load_word m tbl)) \<and> length (all_records m fts) \<le> 2 ^ 61"

definition records_ok :: "memory \<Rightarrow> link \<Rightarrow> bool" where
  "records_ok m fts \<longleftrightarrow> (\<forall>d \<in> set (all_records m fts). d \<noteq> 0 \<and> 4096 \<le> retaddr m d)"

definition unique_retaddrs :: "memory \<Rightarrow> link \<Rightarrow> bool" where
  "unique_retaddrs m fts \<longleftrightarrow> distinct (map (retaddr m) (all_records m fts))"

text \<open>The number of slots of an array that hold a record.\<close>

definition occupied :: "addr list \<Rightarrow> nat" where
  "occupied descr = length (filter (\<lambda>d. d \<noteq> 0) descr)"

text \<open>
  What the probe sequences leave behind, for an array of \<open>2 ^ k\<close> slots and the
  records \<open>recs\<close> inserted so far: no record is at the null address, every record
  is met on the walk from its home slot before any empty slot, every occupied slot
  holds one of the records, and no more slots are occupied than records were inserted.
\<close>

definition on_probe_path :: "addr list \<Rightarrow> nat \<Rightarrow> addr \<Rightarrow> bool" where
  "on_probe_path descr s d \<longleftrightarrow>
     (\<exists>j. descr ! ((s + j) mod length descr) = d \<and>
          (\<forall>i < j. descr ! ((s + i) mod length descr) \<noteq> 0))"

definition table_ok :: "hash_fn \<Rightarrow> memory \<Rightarrow> nat \<Rightarrow> addr list \<Rightarrow> addr list \<Rightarrow> bool" where
  "table_ok hash m k descr recs \<longleftrightarrow>
     length descr = 2 ^ k \<and> 0 \<notin> set recs \<and>
     (\<forall>d \<in> set recs. on_probe_path descr (unat (Hash_retaddr hash (retaddr m d) (2 ^ k - 1))) d) \<and>
     (\<forall>i < length descr. descr ! i \<noteq> 0 \<longrightarrow> descr ! i \<in> set recs) \<and>
     occupied descr \<le> length recs"

subsection \<open>States of the version chain\<close>

text \<open>The state a call leaves behind, whether it returned or stopped on an error.\<close>

definition final_state :: "(error \<times> state) + ('a \<times> state) \<Rightarrow> state" where
  "final_state res = (case res of Inl (e, s) \<Rightarrow> s | Inr (x, s) \<Rightarrow> s)"

text \<open>
  The allocator's side of the contract: a block it hands out is not the null pointer and
  is not in use.
\<close>

definition fresh_result :: "heap \<Rightarrow> alloc_result \<Rightarrow> bool" where
  "fresh_result hp r = (case r of Alloc_failed \<Rightarrow> True | Alloced a \<Rightarrow> a \<noteq> 0 \<and> hp a = None)"

text \<open>
  The invariant of the version nodes.  For each node the marker is
  \<^verbatim>\<open>No_need_to_free\<close> exactly when \<^verbatim>\<open>prev\<close> is \<^verbatim>\<open>NULL\<close>; its array is a live block;
  its predecessor, if any, is a live node and is neither the current node nor the node
  itself.  No two nodes share an array or a predecessor.  The current pointer is a live
  node.
\<close>

definition marker_matches_prev :: "frametable_version \<Rightarrow> bool" where
  "marker_matches_prev v \<longleftrightarrow> (free_prev_after_cycle v = No_need_to_free) = (prev v = 0)"

definition version_inv :: "state \<Rightarrow> bool" where
  "version_inv s \<longleftrightarrow>
     current_frametable s \<noteq> 0 \<and>
     (\<exists>v. heap s (current_frametable s) = Some (Version v)) \<and>
     (\<forall>p v. heap s p = Some (Version v) \<longrightarrow>
        marker_matches_prev v \<and>
        (\<exists>descr. heap s (descriptors (table v)) = Some (Array descr)) \<and>
        (prev v \<noteq> 0 \<longrightarrow>
           (\<exists>old. heap s (prev v) = Some (Version old)) \<and> prev v \<noteq> current_frametable s \<and>
           prev v \<noteq> p)) \<and>
     (\<forall>p q v w. heap s p = Some (Version v) \<and> heap s q = Some (Version w) \<and> p \<noteq> q \<longrightarrow>
        descriptors (table v) \<noteq> descriptors (table w) \<and>
        (prev v \<noteq> 0 \<longrightarrow> prev v \<noteq> prev w))"

text \<open>
  Several threads.  \<^verbatim>\<open>descr_mutex\<close> lets one thread at a time run a locked section:
  the whole of an initialization or of a registration, and \<open>get_locked\<close>.  The other
  parts of \<^verbatim>\<open>caml_get_frame_descrs\<close> run without the lock, so anything can happen
  between them.  A configuration holds, besides the globals of this file, the counter
  \<^verbatim>\<open>caml_major_cycles_completed\<close> of the major collector and the local \<^verbatim>\<open>ft\<close> of
  every thread inside \<^verbatim>\<open>caml_get_frame_descrs\<close>: in \<open>loaded\<close> when the thread has
  loaded the pointer and not yet compared the marker, in \<open>waiting\<close> when the comparison
  held and the thread has not yet run its locked section.
\<close>

record system =
  globals :: state
  caml_major_cycles_completed :: "64 word"
  loaded :: "addr list"
  waiting :: "addr list"

text \<open>
  The configurations the operations reach, in any interleaving.  Initialization starts
  from a state without version nodes and with a null current pointer; every allocation
  that succeeds hands out a fresh block, the two blocks of one call being different.
  The counter steps by one at any moment; what is asked of it is that it is not
  \<^verbatim>\<open>No_need_to_free\<close>, the largest \<^verbatim>\<open>uintnat\<close>, at the moment a registration reads
  it.  A thread whose comparison fails, and a thread that leaves its locked section, only
  read \<^verbatim>\<open>ft->table\<close> before they return.
\<close>

inductive reachable :: "hash_fn \<Rightarrow> memory \<Rightarrow> system \<Rightarrow> bool" for hash :: hash_fn and m :: memory where
  init:
    "caml_init_frame_descriptors hash m caml_frametable r_links (Alloced ft) (Alloced a) s0 =
        Some (Inr s) \<Longrightarrow>
     current_frametable s0 = 0 \<Longrightarrow> \<forall>p v. heap s0 p \<noteq> Some (Version v) \<Longrightarrow>
     fresh_result (heap s0) (Alloced ft) \<Longrightarrow> fresh_result (heap s0) (Alloced a) \<Longrightarrow> ft \<noteq> a \<Longrightarrow>
     reachable hash m
       \<lparr>globals = s, caml_major_cycles_completed = cycles, loaded = [], waiting = []\<rparr>"
| register:
    "reachable hash m c \<Longrightarrow>
     caml_major_cycles_completed c \<noteq> No_need_to_free \<Longrightarrow>
     caml_register_frametable hash m (caml_major_cycles_completed c) tbl r_link (Alloced ft)
        (Alloced a) (globals c) = Some (Inr s') \<Longrightarrow>
     fresh_result (heap (globals c)) (Alloced ft) \<Longrightarrow>
     fresh_result (heap (globals c)) (Alloced a) \<Longrightarrow> ft \<noteq> a \<Longrightarrow>
     reachable hash m (c\<lparr>globals := s'\<rparr>)"
| cycle:
    "reachable hash m c \<Longrightarrow>
     reachable hash m (c\<lparr>caml_major_cycles_completed := caml_major_cycles_completed c + 1\<rparr>)"
| load:
    "reachable hash m c \<Longrightarrow> get_load (globals c) = Inr p \<Longrightarrow>
     reachable hash m (c\<lparr>loaded := p # loaded c\<rparr>)"
| compare:
    "reachable hash m c \<Longrightarrow> p \<in> set (loaded c) \<Longrightarrow>
     get_compare (caml_major_cycles_completed c) p (globals c) = Inr passed \<Longrightarrow>
     reachable hash m
       (c\<lparr>loaded := remove1 p (loaded c),
          waiting := (if passed then p # waiting c else waiting c)\<rparr>)"
| locked:
    "reachable hash m c \<Longrightarrow> p \<in> set (waiting c) \<Longrightarrow> get_locked p (globals c) = Inr s' \<Longrightarrow>
     reachable hash m (c\<lparr>globals := s', waiting := remove1 p (waiting c)\<rparr>)"

subsection \<open>A concrete memory\<close>

text \<open>
  The example of the specification: a raw table at \<open>0x10000\<close> with three records
  without allocation lengths or debug information (return addresses \<open>0x401000\<close>,
  \<open>0x401040\<close> and \<open>0x401080\<close>, at \<open>0x10008\<close>, \<open>0x10018\<close> and \<open>0x10028\<close>).  A second
  table at \<open>0x20000\<close> holds one record at \<open>0x20008\<close> with both flag bits set, one
  live slot and two allocation lengths.  The hash is the shift by three bits that the
  alignment of return addresses suggests.
\<close>

definition example_mem :: memory where
  "example_mem =
     \<lparr>load8 = (\<lambda>a. if a = 0x20016 then 2 else 0),
      load16 = (\<lambda>a. if a = 0x10010 \<or> a = 0x10020 \<or> a = 0x10030 then 16
                     else if a = 0x20010 then 0x13
                     else if a = 0x20012 then 1 else 0),
      load_word = (\<lambda>a. if a = 0x10000 then 3
                        else if a = 0x10008 then 0x401000
                        else if a = 0x10018 then 0x401040
                        else if a = 0x10028 then 0x401080
                        else if a = 0x20000 then 1
                        else if a = 0x20008 then 0x402000 else 0)\<rparr>"

definition example_hash :: hash_fn where
  "example_hash a = drop_bit 3 a"

text \<open>
  A run on that memory.  The runtime starts with the first table only
  (\<open>example_s0\<close> to \<open>example_s1\<close>, version node at \<open>0x8000\<close>, array at \<open>0x7000\<close>);
  the second table is registered when the counter of completed cycles is 5
  (\<open>example_s2\<close>, version node at \<open>0x8100\<close>, array at \<open>0x7100\<close>); a later call of
  \<^verbatim>\<open>caml_get_frame_descrs\<close> that observes 6 completed cycles frees the first version
  (\<open>example_s3\<close>).
\<close>

definition example_s0 :: state where
  "example_s0 = \<lparr>heap = Map.empty, frametables = [], current_frametable = 0\<rparr>"

definition example_v1 :: frametable_version where
  "example_v1 =
     \<lparr>table = \<lparr>descriptors = 0x7000, mask_fd = 7\<rparr>,
      free_prev_after_cycle = No_need_to_free, prev = 0\<rparr>"

definition example_v2 :: frametable_version where
  "example_v2 =
     \<lparr>table = \<lparr>descriptors = 0x7100, mask_fd = 7\<rparr>,
      free_prev_after_cycle = 5, prev = 0x8000\<rparr>"

definition example_s1 :: state where
  "example_s1 =
     \<lparr>heap = Map.empty(0x8000 \<mapsto> Raw,
                 0x7000 \<mapsto> Array [0x10008, 0x10018, 0x10028, 0, 0, 0, 0, 0],
                 0x8000 \<mapsto> Version example_v1),
      frametables = [0x10000],
      current_frametable = 0x8000\<rparr>"

definition example_s2 :: state where
  "example_s2 =
     \<lparr>heap = (heap example_s1)(0x8100 \<mapsto> Raw,
                 0x7100 \<mapsto> Array [0x20008, 0x10008, 0x10018, 0x10028, 0, 0, 0, 0],
                 0x8100 \<mapsto> Version example_v2),
      frametables = [0x20000, 0x10000],
      current_frametable = 0x8100\<rparr>"

definition example_s3 :: state where
  "example_s3 =
     example_s2\<lparr>heap := (heap example_s2)(0x7000 := None, 0x8000 := None,
        0x8100 \<mapsto> Version (example_v2\<lparr>prev := 0, free_prev_after_cycle := No_need_to_free\<rparr>))\<rparr>"

text \<open>
  The same registration at a moment when the counter of completed cycles is
  \<^verbatim>\<open>(uintnat)-1\<close>.
\<close>

definition example_v2_max :: frametable_version where
  "example_v2_max =
     \<lparr>table = \<lparr>descriptors = 0x7100, mask_fd = 7\<rparr>,
      free_prev_after_cycle = No_need_to_free, prev = 0x8000\<rparr>"

definition example_s2_max :: state where
  "example_s2_max =
     \<lparr>heap = (heap example_s1)(0x8100 \<mapsto> Raw,
                 0x7100 \<mapsto> Array [0x20008, 0x10008, 0x10018, 0x10028, 0, 0, 0, 0],
                 0x8100 \<mapsto> Version example_v2_max),
      frametables = [0x20000, 0x10000],
      current_frametable = 0x8100\<rparr>"

text \<open>The allocator of the \<^verbatim>\<open>link\<close> nodes in that run.\<close>

definition example_links :: "nat \<Rightarrow> alloc_result" where
  "example_links i = Alloced 0x6000"

text \<open>
  Two threads in \<^verbatim>\<open>caml_get_frame_descrs\<close> after the registration and one more
  completed cycle: both have loaded the pointer \<open>0x8100\<close> and seen the marker 5 below
  the counter 6 (\<open>example_c2\<close>); then the first has run its locked section and the other
  still waits (\<open>example_c3\<close>).
\<close>

definition example_c2 :: system where
  "example_c2 =
     \<lparr>globals = example_s2, caml_major_cycles_completed = 6, loaded = [],
      waiting = [0x8100, 0x8100]\<rparr>"

definition example_c3 :: system where
  "example_c3 =
     \<lparr>globals = example_s3, caml_major_cycles_completed = 6, loaded = [],
      waiting = [0x8100]\<rparr>"

section \<open>Properties\<close>

subsection \<open>The record parser\<close>

lemma and_2_iff_bit1: "(w :: 16 word) AND 2 \<noteq> 0 \<longleftrightarrow> bit w 1"
  by (metis and_exp_eq_0_iff_not_bit power_one_right)

lemma and_1_iff_bit0: "(w :: 16 word) AND 1 \<noteq> 0 \<longleftrightarrow> bit w 0"
  by (simp add: and_one_eq bit_0 mod_2_eq_odd)

lemma sentinel_all_ones: "(- 1 :: 16 word) = 0xFFFF"
  by simp

text \<open>
  C2.  For every well-formed frame record (its return address is at least 4096, as the
  record format demands), \<^verbatim>\<open>next_frame_descr\<close> returns the address the specification
  describes: past the header and the \<^verbatim>\<open>num_live\<close> live offsets; past the byte
  \<^verbatim>\<open>num_allocs\<close> and that many bytes when bit 1 is set; aligned to 4 and past one debug
  word per allocation (or exactly one without the allocation table) when bit 0 is set
  and the word is not the sentinel 0xFFFF; finally aligned to the pointer width.  The
  flags word is arbitrary, so every combination of the bits is covered.
\<close>

theorem next_frame_descr_refines_spec:
  "4096 \<le> retaddr m d \<Longrightarrow> next_frame_descr m d = Inr (spec_next_record m d)"
  by (simp add: next_frame_descr_def next_frame_descr_ptr_def spec_next_record_def has_alloc_lengths_def
      has_debug_info_def and_2_iff_bit1 and_1_iff_bit0 live_ofs_addr_def frame_size_def
      num_live_def Let_def add.assoc not_less sentinel_all_ones)

theorem next_frame_descr_refines_spec_witness:
  "4096 \<le> retaddr example_mem 0x20008 \<and>
   next_frame_descr example_mem 0x20008 = Inr (spec_next_record example_mem 0x20008) \<and>
   spec_next_record example_mem 0x20008 = 0x20028"
proof -
  have wf: "4096 \<le> retaddr example_mem 0x20008"
    by (simp add: retaddr_def example_mem_def)
  have "spec_next_record example_mem 0x20008 = 0x20028"
    unfolding spec_next_record_def Let_def
    by (simp add: example_mem_def has_alloc_lengths_def has_debug_info_def Align_to_def)
  with wf next_frame_descr_refines_spec [OF wf] show ?thesis
    by simp
qed

subsection \<open>Machine arithmetic\<close>

lemma unat_pow2: "k < 64 \<Longrightarrow> unat (2 ^ k :: 64 word) = 2 ^ k"
proof -
  assume k: "k < 64"
  have "unat (2 ^ k :: 64 word) = unat (push_bit k (1 :: 64 word))"
    by (simp add: push_bit_eq_mult)
  also have "\<dots> = take_bit LENGTH(64) (push_bit k (unat (1 :: 64 word)))"
    by (rule unsigned_push_bit_eq)
  also have "\<dots> = take_bit 64 ((2::nat) ^ k)"
    by (simp add: push_bit_eq_mult)
  also have "\<dots> = 2 ^ k"
    using k by (intro take_bit_nat_eq_self power_strict_increasing) simp_all
  finally show ?thesis .
qed

lemma sint_eq_unat: "unat (w :: 64 word) < 2 ^ 63 \<Longrightarrow> sint w = int (unat w)"
proof -
  assume a: "unat w < 2 ^ 63"
  then have "int (unat w) < int (2 ^ 63)" by (simp only: of_nat_less_iff)
  also have "int (2 ^ 63) = 2 ^ 63" by simp
  finally have lt: "uint w < 2 ^ 63" by (simp only: uint_nat)
  have "- (2 ^ 63) \<le> (0::int)" by simp
  also have "(0::int) \<le> uint w" by (rule uint_ge_0)
  finally have ge: "- (2 ^ 63) \<le> uint w" .
  have "signed_take_bit 63 (uint w) = uint w"
    using ge lt by (rule signed_take_bit_int_eq_self)
  moreover have "sint w = signed_take_bit (LENGTH(64) - Suc 0) (uint w)"
    by (rule sint_uint)
  ultimately show ?thesis by simp
qed

lemma unat_double: "unat (n :: 64 word) < 2 ^ 63 \<Longrightarrow> unat (2 * n) = 2 * unat n"
proof -
  assume "unat n < 2 ^ 63"
  then have "unat (2 :: 64 word) * unat n < 2 ^ LENGTH(64)" by simp
  then have "unat (2 * n) = unat (2 :: 64 word) * unat n"
    by (simp only: unat_mult_lem [THEN iffD1])
  then show ?thesis by simp
qed

lemma pow2_sless_iff:
  assumes "k \<le> 62" "unat (n :: 64 word) \<le> 2 ^ 61"
  shows "(2 ^ k :: 64 word) <s 2 * n \<longleftrightarrow> 2 ^ k < 2 * unat n"
proof -
  have "(2::nat) ^ k \<le> 2 ^ 62" using assms(1) by (intro power_increasing) simp_all
  also have "\<dots> < 2 ^ 63" by simp
  finally have k: "(2::nat) ^ k < 2 ^ 63" .
  have "k < 64" using assms(1) by simp
  then have uk: "unat (2 ^ k :: 64 word) = 2 ^ k" by (rule unat_pow2)
  have 1: "sint (2 ^ k :: 64 word) = int (2 ^ k)"
    using k sint_eq_unat [of "2 ^ k"] by (simp only: uk)
  have n: "unat n < 2 ^ 63" using assms(2) by simp
  then have un: "unat (2 * n) = 2 * unat n" by (rule unat_double)
  have "2 * unat n \<le> 2 * 2 ^ 61" using assms(2) by simp
  then have "2 * unat n < 2 ^ 63" by simp
  then have 2: "sint (2 * n) = int (2 * unat n)"
    using sint_eq_unat [of "2 * n"] by (simp only: un)
  show ?thesis unfolding word_sless_alt 1 2 by (simp only: of_nat_less_iff)
qed

lemma grow_tblsize_pow2:
  assumes "unat (n :: 64 word) \<le> 2 ^ 61"
  shows "k \<le> 62 \<Longrightarrow>
    \<exists>j. k \<le> j \<and> j \<le> 62 \<and> grow_tblsize (2 ^ k) n = Some (2 ^ j) \<and> 2 * unat n \<le> 2 ^ j \<and>
        (\<forall>i. k \<le> i \<and> i < j \<longrightarrow> 2 ^ i < 2 * unat n)"
proof (induction "62 - k" arbitrary: k)
  case 0
  then have k: "k = 62" by simp
  have big: "2 * unat n \<le> 2 ^ 62" using assms by simp
  then have "\<not> (2 ^ 62 :: 64 word) <s 2 * n"
    using pow2_sless_iff [of 62 n] assms by simp
  then have "grow_tblsize (2 ^ 62) n = Some (2 ^ 62)"
    by (subst grow_tblsize.simps) simp
  with big k show ?case by (intro exI [of _ 62]) simp
next
  case (Suc x)
  then have k: "k < 62" by simp
  show ?case
  proof (cases "(2::nat) ^ k < 2 * unat n")
    case True
    then have "(2 ^ k :: 64 word) <s 2 * n"
      using pow2_sless_iff [of k n] assms k by simp
    then have step: "grow_tblsize (2 ^ k) n = grow_tblsize (2 ^ Suc k) n"
      by (subst grow_tblsize.simps) (simp add: mult.commute)
    have "x = 62 - Suc k" "Suc k \<le> 62" using Suc.hyps(2) k by simp_all
    then obtain j where j: "Suc k \<le> j" "j \<le> 62" "grow_tblsize (2 ^ Suc k) n = Some (2 ^ j)"
      "2 * unat n \<le> 2 ^ j" "\<forall>i. Suc k \<le> i \<and> i < j \<longrightarrow> 2 ^ i < 2 * unat n"
      using Suc.hyps(1) [of "Suc k"] by blast
    have "\<forall>i. k \<le> i \<and> i < j \<longrightarrow> 2 ^ i < 2 * unat n"
    proof (intro allI impI)
      fix i assume i: "k \<le> i \<and> i < j"
      show "2 ^ i < 2 * unat n"
      proof (cases "i = k")
        case True with \<open>2 ^ k < 2 * unat n\<close> show ?thesis by simp
      next
        case False with i j(5) show ?thesis by simp
      qed
    qed
    with j step show ?thesis by (intro exI [of _ j]) simp
  next
    case False
    then have "\<not> (2 ^ k :: 64 word) <s 2 * n"
      using pow2_sless_iff [of k n] assms k by simp
    then have "grow_tblsize (2 ^ k) n = Some (2 ^ k)"
      by (subst grow_tblsize.simps) simp
    with False k show ?thesis by (intro exI [of _ k]) simp
  qed
qed

lemma unat_and_mask_mod: "unat ((x :: 64 word) AND (2 ^ k - 1)) = unat x mod 2 ^ k"
proof -
  have "x AND (2 ^ k - 1) = take_bit k x"
    by (simp only: take_bit_eq_mask mask_eq_decr_exp)
  moreover have "unat (take_bit k x) = take_bit k (unat x)"
    by (rule unsigned_take_bit_eq)
  moreover have "take_bit k (unat x) = unat x mod 2 ^ k"
    by (rule take_bit_eq_mod)
  ultimately show ?thesis by (simp only:)
qed

lemma unat_next_slot:
  assumes "k < 64"
  shows "unat (((h :: 64 word) + 1) AND (2 ^ k - 1)) = (unat h + 1) mod 2 ^ k"
proof -
  have "unat (h + 1) = (unat h + 1) mod 2 ^ 64"
    by (simp add: unat_word_ariths)
  moreover have "(2::nat) ^ k dvd 2 ^ 64"
    using assms by (intro le_imp_power_dvd) simp
  ultimately show ?thesis
    by (simp only: unat_and_mask_mod mod_mod_cancel)
qed

lemma shift_walk:
  assumes "s' = (s + 1) mod n"
  shows "(s' + i) mod n = (s + Suc i) mod (n::nat)"
  using assms by (simp add: mod_simps)

subsection \<open>The probe loops\<close>

lemma first_empty_slot:
  assumes "e < n" "descr ! e = (0 :: addr)" "s < n"
  shows "\<exists>j. descr ! ((s + j) mod n) = 0 \<and> (\<forall>i < j. descr ! ((s + i) mod n) \<noteq> 0)"
proof -
  let ?P = "\<lambda>j. descr ! ((s + j) mod n) = 0"
  have "(s + (e + n - s)) mod n = e" using assms by simp
  then have "?P (e + n - s)" using assms(2) by simp
  then have "?P (LEAST j. ?P j)" by (rule LeastI)
  moreover have "\<forall>i < (LEAST j. ?P j). \<not> ?P i"
    using not_less_Least by blast
  ultimately show ?thesis by blast
qed

lemma probe_free_finds:
  assumes "k < 64" "length descr = 2 ^ k"
  shows "descr ! ((unat h + j) mod 2 ^ k) = 0 \<Longrightarrow>
     \<forall>i < j. descr ! ((unat h + i) mod 2 ^ k) \<noteq> 0 \<Longrightarrow> unat h < 2 ^ k \<Longrightarrow>
     \<exists>h'. probe_free descr (2 ^ k - 1) h = Some (Inr h') \<and> unat h' = (unat h + j) mod 2 ^ k"
proof (induction j arbitrary: h)
  case 0
  then have "descr ! unat h = 0" by simp
  with 0 assms show ?case
    by (subst probe_free.simps) simp
next
  case (Suc j)
  let ?h = "(h + 1) AND (2 ^ k - 1)"
  have h': "unat ?h = (unat h + 1) mod 2 ^ k"
    using assms(1) by (rule unat_next_slot)
  have occ: "descr ! unat h \<noteq> 0"
    using Suc.prems(2) [rule_format, of 0] Suc.prems(3) by simp
  have pos: "\<And>i. (unat ?h + i) mod 2 ^ k = (unat h + Suc i) mod 2 ^ k"
    using h' by (rule shift_walk)
  have "\<exists>h'. probe_free descr (2 ^ k - 1) ?h = Some (Inr h') \<and> unat h' = (unat ?h + j) mod 2 ^ k"
  proof (rule Suc.IH)
    show "descr ! ((unat ?h + j) mod 2 ^ k) = 0"
      using Suc.prems(1) by (simp only: pos)
    show "\<forall>i<j. descr ! ((unat ?h + i) mod 2 ^ k) \<noteq> 0"
    proof (intro allI impI)
      fix i assume "i < j"
      then have "Suc i < Suc j" by simp
      then have "descr ! ((unat h + Suc i) mod 2 ^ k) \<noteq> 0"
        using Suc.prems(2) by blast
      then show "descr ! ((unat ?h + i) mod 2 ^ k) \<noteq> 0" unfolding pos .
    qed
    show "unat ?h < 2 ^ k" by (simp add: h')
  qed
  moreover have "probe_free descr (2 ^ k - 1) h = probe_free descr (2 ^ k - 1) ?h"
    using occ Suc.prems(3) assms(2) by (subst probe_free.simps) simp
  ultimately show ?case by (simp only: pos)
qed

lemma find_loop_returns:
  assumes "k < 64" "length descr = 2 ^ k"
  shows "descr ! ((unat h + j) mod 2 ^ k) = 0 \<Longrightarrow> unat h < 2 ^ k \<Longrightarrow>
     \<exists>r. find_loop m descr (2 ^ k - 1) pc h = Some (Inr r) \<and>
         (r = 0 \<or> (retaddr m r = pc \<and> r \<in> set descr))"
proof (induction j arbitrary: h)
  case 0
  then have "descr ! unat h = 0" by simp
  with 0 assms show ?case
    by (subst find_loop.simps) simp
next
  case (Suc j)
  let ?h = "(h + 1) AND (2 ^ k - 1)"
  have h': "unat ?h = (unat h + 1) mod 2 ^ k"
    using assms(1) by (rule unat_next_slot)
  have pos: "\<And>i. (unat ?h + i) mod 2 ^ k = (unat h + Suc i) mod 2 ^ k"
    using h' by (rule shift_walk)
  have IH: "\<exists>r. find_loop m descr (2 ^ k - 1) pc ?h = Some (Inr r) \<and>
         (r = 0 \<or> (retaddr m r = pc \<and> r \<in> set descr))"
  proof (rule Suc.IH)
    show "descr ! ((unat ?h + j) mod 2 ^ k) = 0"
      using Suc.prems(1) by (simp only: pos)
    show "unat ?h < 2 ^ k" by (simp add: h')
  qed
  have inr: "unat h < length descr" using Suc.prems(2) assms(2) by simp
  show ?case
  proof (cases "descr ! unat h = 0")
    case True
    with inr show ?thesis by (subst find_loop.simps) simp
  next
    case False
    show ?thesis
    proof (cases "retaddr m (descr ! unat h) = pc")
      case True
      with False inr show ?thesis
        by (subst find_loop.simps) simp
    next
      case ne: False
      have "find_loop m descr (2 ^ k - 1) pc h = find_loop m descr (2 ^ k - 1) pc ?h"
        using False ne inr by (subst find_loop.simps) simp
      with IH show ?thesis by simp
    qed
  qed
qed

lemma find_loop_hit:
  assumes "k < 64" "length descr = 2 ^ k" "d \<noteq> 0" "retaddr m d = pc"
    and uniq: "\<forall>i < length descr. descr ! i \<noteq> 0 \<and> retaddr m (descr ! i) = pc \<longrightarrow> descr ! i = d"
  shows "descr ! ((unat h + j) mod 2 ^ k) = d \<Longrightarrow>
     \<forall>i < j. descr ! ((unat h + i) mod 2 ^ k) \<noteq> 0 \<Longrightarrow> unat h < 2 ^ k \<Longrightarrow>
     find_loop m descr (2 ^ k - 1) pc h = Some (Inr d)"
proof (induction j arbitrary: h)
  case 0
  then have here: "descr ! unat h = d" by simp
  have inr: "unat h < length descr" using "0.prems"(3) assms(2) by simp
  show ?case
    by (subst find_loop.simps) (simp add: here inr assms(3) assms(4))
next
  case (Suc j)
  let ?h = "(h + 1) AND (2 ^ k - 1)"
  have h': "unat ?h = (unat h + 1) mod 2 ^ k"
    using assms(1) by (rule unat_next_slot)
  have pos: "\<And>i. (unat ?h + i) mod 2 ^ k = (unat h + Suc i) mod 2 ^ k"
    using h' by (rule shift_walk)
  have IH: "find_loop m descr (2 ^ k - 1) pc ?h = Some (Inr d)"
  proof (rule Suc.IH)
    show "descr ! ((unat ?h + j) mod 2 ^ k) = d"
      using Suc.prems(1) by (simp only: pos)
    show "\<forall>i<j. descr ! ((unat ?h + i) mod 2 ^ k) \<noteq> 0"
    proof (intro allI impI)
      fix i assume "i < j"
      then have "Suc i < Suc j" by simp
      then have "descr ! ((unat h + Suc i) mod 2 ^ k) \<noteq> 0"
        using Suc.prems(2) by blast
      then show "descr ! ((unat ?h + i) mod 2 ^ k) \<noteq> 0" unfolding pos .
    qed
    show "unat ?h < 2 ^ k" by (simp add: h')
  qed
  have inr: "unat h < length descr" using Suc.prems(3) assms(2) by simp
  have "descr ! ((unat h + 0) mod 2 ^ k) \<noteq> 0"
    using Suc.prems(2) by blast
  then have occ: "descr ! unat h \<noteq> 0"
    using Suc.prems(3) by simp
  show ?case
  proof (cases "retaddr m (descr ! unat h) = pc")
    case True
    from uniq inr occ True have here: "descr ! unat h = d" by blast
    show ?thesis
      by (subst find_loop.simps) (simp add: here inr assms(3) assms(4))
  next
    case ne: False
    have "find_loop m descr (2 ^ k - 1) pc h = find_loop m descr (2 ^ k - 1) pc ?h"
      by (subst find_loop.simps) (simp add: occ ne inr)
    with IH show ?thesis by simp
  qed
qed

subsection \<open>Occupied slots\<close>

lemma occupied_update_le: "occupied (descr[i := d]) \<le> Suc (occupied descr)"
  unfolding occupied_def
proof (induction descr arbitrary: i)
  case Nil
  show ?case by simp
next
  case (Cons x xs)
  show ?case
  proof (cases i)
    case 0
    then show ?thesis by simp
  next
    case (Suc i')
    with Cons [of i'] show ?thesis by simp
  qed
qed

lemma occupied_replicate: "occupied (replicate n 0) = 0"
  by (simp add: occupied_def)

lemma exists_empty_slot:
  assumes "occupied descr < length descr"
  shows "\<exists>e < length descr. descr ! e = 0"
proof -
  have "filter (\<lambda>d. d \<noteq> 0) descr \<noteq> descr"
    using assms unfolding occupied_def by auto
  then obtain x where "x \<in> set descr" "x = 0"
    by (auto simp: filter_id_conv)
  then show ?thesis by (auto simp: in_set_conv_nth)
qed

lemma fill_records_occupied:
  "fill_records hash m ts msk cnt d0 descr = Some (Inr descr') \<Longrightarrow>
     length descr' = length descr \<and> occupied descr' \<le> occupied descr + cnt"
proof (induction cnt arbitrary: d0 descr)
  case 0
  then show ?case by simp
next
  case (Suc cnt)
  from Suc.prems obtain h d1 where
    h: "probe_free descr msk (Hash_retaddr hash (retaddr m d0) (ts - 1)) = Some (Inr h)" and
    d1: "next_frame_descr m d0 = Inr d1" and
    rest: "fill_records hash m ts msk cnt d1 (descr[unat h := d0]) = Some (Inr descr')"
    by (auto split: option.splits sum.splits)
  from Suc.IH [OF rest] have "length descr' = length descr"
    and "occupied descr' \<le> occupied (descr[unat h := d0]) + cnt" by simp_all
  moreover have "occupied (descr[unat h := d0]) \<le> Suc (occupied descr)"
    by (rule occupied_update_le)
  ultimately show ?case by simp
qed

lemma length_frame_records: "length (frame_records m n d) = n"
  by (induction n arbitrary: d) simp_all

lemma length_table_records: "length (table_records m tbl) = nat (sint (load_word m tbl))"
  by (simp add: table_records_def length_frame_records)

lemma fill_tables_occupied:
  "fill_tables hash m ts msk fts descr = Some (Inr descr') \<Longrightarrow>
     length descr' = length descr \<and> occupied descr' \<le> occupied descr + length (all_records m fts)"
proof (induction fts arbitrary: descr)
  case Nil
  then show ?case by (simp add: all_records_def)
next
  case (Cons tbl fts)
  from Cons.prems obtain descr1 where
    1: "fill_records hash m ts msk (nat (sint (load_word m tbl))) (tbl + 8) descr = Some (Inr descr1)" and
    2: "fill_tables hash m ts msk fts descr1 = Some (Inr descr')"
    by (auto split: option.splits sum.splits)
  from fill_records_occupied [OF 1] Cons.IH [OF 2] show ?case
    by (simp add: all_records_def length_table_records)
qed

subsection \<open>Insertion keeps the probe paths\<close>

lemma unat_Hash_retaddr_less:
  "unat (Hash_retaddr hash a (2 ^ k - 1)) < 2 ^ k"
  by (simp add: Hash_retaddr_def unat_and_mask_mod)

lemma table_ok_insert:
  assumes ok: "table_ok hash m k descr recs" and k: "k < 64" and d: "d \<noteq> 0"
    and room: "length recs < 2 ^ k"
  shows "\<exists>h. probe_free descr (2 ^ k - 1) (Hash_retaddr hash (retaddr m d) (2 ^ k - 1)) = Some (Inr h) \<and>
             table_ok hash m k (descr[unat h := d]) (recs @ [d])"
proof -
  let ?n = "(2::nat) ^ k"
  let ?h0 = "Hash_retaddr hash (retaddr m d) (2 ^ k - 1)"
  from ok have len: "length descr = ?n" and nz: "0 \<notin> set recs"
    and paths: "\<forall>d \<in> set recs. on_probe_path descr (unat (Hash_retaddr hash (retaddr m d) (2 ^ k - 1))) d"
    and sub: "\<forall>i < length descr. descr ! i \<noteq> 0 \<longrightarrow> descr ! i \<in> set recs"
    and occ: "occupied descr \<le> length recs"
    by (simp_all add: table_ok_def)
  have s: "unat ?h0 < ?n" by (rule unat_Hash_retaddr_less)
  from occ room len have "occupied descr < length descr" by simp
  then obtain e where e: "e < ?n" "descr ! e = 0"
    using exists_empty_slot len by metis
  from first_empty_slot [OF e s] obtain j where
    j0: "descr ! ((unat ?h0 + j) mod ?n) = 0" and
    jn: "\<forall>i < j. descr ! ((unat ?h0 + i) mod ?n) \<noteq> 0" by blast
  from probe_free_finds [OF k len j0 jn s] obtain h where
    h: "probe_free descr (2 ^ k - 1) ?h0 = Some (Inr h)" and
    uh: "unat h = (unat ?h0 + j) mod ?n" by blast
  let ?p = "unat h"
  let ?descr' = "descr[?p := d]"
  have p: "?p < length descr" by (simp add: uh len)
  have empty: "descr ! ?p = 0" using j0 uh by simp
  have same: "\<And>i. descr ! i \<noteq> 0 \<Longrightarrow> ?descr' ! i = descr ! i"
    using empty by (metis nth_list_update_neq)
  have len': "length ?descr' = ?n" using len by simp
  have nz': "0 \<notin> set (recs @ [d])" using nz d by auto
  have new_path: "on_probe_path ?descr' (unat ?h0) d"
    unfolding on_probe_path_def
  proof (intro exI [of _ j] conjI allI impI)
    show "?descr' ! ((unat ?h0 + j) mod length ?descr') = d"
      using p uh len by simp
    fix i assume "i < j"
    then have "descr ! ((unat ?h0 + i) mod ?n) \<noteq> 0" using jn by blast
    then show "?descr' ! ((unat ?h0 + i) mod length ?descr') \<noteq> 0"
      using same len by simp
  qed
  have old_paths: "on_probe_path ?descr' (unat (Hash_retaddr hash (retaddr m x) (2 ^ k - 1))) x"
    if x: "x \<in> set recs" for x
  proof -
    let ?s = "unat (Hash_retaddr hash (retaddr m x) (2 ^ k - 1))"
    from paths x have "on_probe_path descr ?s x" by blast
    then obtain jx where
      jx: "descr ! ((?s + jx) mod ?n) = x" and
      before: "\<forall>i < jx. descr ! ((?s + i) mod ?n) \<noteq> 0"
      unfolding on_probe_path_def len by blast
    from x nz have "x \<noteq> 0" by auto
    with jx have "descr ! ((?s + jx) mod ?n) \<noteq> 0" by simp
    then have "?descr' ! ((?s + jx) mod ?n) = x" using same jx by simp
    moreover have "\<forall>i < jx. ?descr' ! ((?s + i) mod ?n) \<noteq> 0"
      using before same by simp
    ultimately show ?thesis
      unfolding on_probe_path_def len' by blast
  qed
  have paths': "\<forall>x \<in> set (recs @ [d]).
      on_probe_path ?descr' (unat (Hash_retaddr hash (retaddr m x) (2 ^ k - 1))) x"
    using new_path old_paths by auto
  have sub': "\<forall>i < length ?descr'. ?descr' ! i \<noteq> 0 \<longrightarrow> ?descr' ! i \<in> set (recs @ [d])"
  proof (intro allI impI)
    fix i assume i: "i < length ?descr'" and ne: "?descr' ! i \<noteq> 0"
    show "?descr' ! i \<in> set (recs @ [d])"
    proof (cases "i = ?p")
      case True
      with p show ?thesis by simp
    next
      case False
      then have "?descr' ! i = descr ! i" by simp
      with ne i sub show ?thesis by simp
    qed
  qed
  have "occupied ?descr' \<le> Suc (occupied descr)" by (rule occupied_update_le)
  with occ have occ': "occupied ?descr' \<le> length (recs @ [d])" by simp
  from len' nz' paths' sub' occ' have "table_ok hash m k ?descr' (recs @ [d])"
    unfolding table_ok_def by blast
  with h show ?thesis by blast
qed

lemma fill_records_ok:
  assumes k: "k < 64"
  shows "table_ok hash m k descr recs \<Longrightarrow> length recs + cnt < 2 ^ k \<Longrightarrow>
     \<forall>d \<in> set (frame_records m cnt d0). d \<noteq> 0 \<and> 4096 \<le> retaddr m d \<Longrightarrow>
     \<exists>descr'. fill_records hash m (2 ^ k) (2 ^ k - 1) cnt d0 descr = Some (Inr descr') \<and>
        table_ok hash m k descr' (recs @ frame_records m cnt d0)"
proof (induction cnt arbitrary: d0 descr recs)
  case 0
  then show ?case by simp
next
  case (Suc cnt)
  from Suc.prems(3) have d0: "d0 \<noteq> 0" and ra: "4096 \<le> retaddr m d0"
    and rest: "\<forall>d \<in> set (frame_records m cnt (next_frame_descr_ptr m d0)). d \<noteq> 0 \<and> 4096 \<le> retaddr m d"
    by simp_all
  from Suc.prems(2) have room: "length recs < 2 ^ k" by simp
  from table_ok_insert [OF Suc.prems(1) k d0 room] obtain h where
    h: "probe_free descr (2 ^ k - 1) (Hash_retaddr hash (retaddr m d0) (2 ^ k - 1)) = Some (Inr h)" and
    ok': "table_ok hash m k (descr[unat h := d0]) (recs @ [d0])" by blast
  have nx: "next_frame_descr m d0 = Inr (next_frame_descr_ptr m d0)"
    using ra by (simp add: next_frame_descr_def not_less)
  from Suc.prems(2) have room': "length (recs @ [d0]) + cnt < 2 ^ k" by simp
  from Suc.IH [OF ok' room' rest] obtain descr' where
    "fill_records hash m (2 ^ k) (2 ^ k - 1) cnt (next_frame_descr_ptr m d0) (descr[unat h := d0]) = Some (Inr descr')"
    "table_ok hash m k descr' ((recs @ [d0]) @ frame_records m cnt (next_frame_descr_ptr m d0))"
    by blast
  with h nx show ?case by simp
qed

lemma fill_tables_ok:
  assumes k: "k < 64"
  shows "table_ok hash m k descr recs \<Longrightarrow> length recs + length (all_records m fts) < 2 ^ k \<Longrightarrow>
     \<forall>d \<in> set (all_records m fts). d \<noteq> 0 \<and> 4096 \<le> retaddr m d \<Longrightarrow>
     \<exists>descr'. fill_tables hash m (2 ^ k) (2 ^ k - 1) fts descr = Some (Inr descr') \<and>
        table_ok hash m k descr' (recs @ all_records m fts)"
proof (induction fts arbitrary: descr recs)
  case Nil
  then show ?case by (simp add: all_records_def)
next
  case (Cons tbl fts)
  let ?cnt = "nat (sint (load_word m tbl))"
  have split: "all_records m (tbl # fts) = frame_records m ?cnt (tbl + 8) @ all_records m fts"
    by (simp add: all_records_def table_records_def)
  have lens: "length (all_records m (tbl # fts)) = ?cnt + length (all_records m fts)"
    by (simp add: split length_frame_records)
  from Cons.prems(2) lens have room: "length recs + ?cnt < 2 ^ k" by simp
  from Cons.prems(3) split
  have here: "\<forall>d \<in> set (frame_records m ?cnt (tbl + 8)). d \<noteq> 0 \<and> 4096 \<le> retaddr m d"
    and there: "\<forall>d \<in> set (all_records m fts). d \<noteq> 0 \<and> 4096 \<le> retaddr m d"
    by simp_all
  from fill_records_ok [OF k Cons.prems(1) room here] obtain descr1 where
    1: "fill_records hash m (2 ^ k) (2 ^ k - 1) ?cnt (tbl + 8) descr = Some (Inr descr1)" and
    ok1: "table_ok hash m k descr1 (recs @ frame_records m ?cnt (tbl + 8))" by blast
  from Cons.prems(2) lens
  have room1: "length (recs @ frame_records m ?cnt (tbl + 8)) + length (all_records m fts) < 2 ^ k"
    by (simp add: length_frame_records)
  from Cons.IH [OF ok1 room1 there] obtain descr' where
    "fill_tables hash m (2 ^ k) (2 ^ k - 1) fts descr1 = Some (Inr descr')"
    "table_ok hash m k descr' ((recs @ frame_records m ?cnt (tbl + 8)) @ all_records m fts)"
    by blast
  with 1 split show ?case by simp
qed

subsection \<open>Counting the descriptors\<close>

lemma word_of_nat_sint:
  assumes "0 \<le> sint (c :: 64 word)"
  shows "of_nat (nat (sint c)) = c"
proof -
  have "of_nat (nat (sint c)) = (word_of_int (sint c) :: 64 word)"
    using assms by simp
  then show ?thesis by simp
qed

lemma count_descrs_sum:
  "\<forall>tbl \<in> set fts. 0 \<le> sint (load_word m tbl) \<Longrightarrow>
     count_descrs m fts acc = acc + of_nat (length (all_records m fts))"
proof (induction fts arbitrary: acc)
  case Nil
  then show ?case by (simp add: all_records_def)
next
  case (Cons tbl fts)
  then have "0 \<le> sint (load_word m tbl)" by simp
  then have c: "of_nat (nat (sint (load_word m tbl))) = load_word m tbl"
    by (rule word_of_nat_sint)
  have "length (all_records m (tbl # fts)) =
        nat (sint (load_word m tbl)) + length (all_records m fts)"
    by (simp add: all_records_def length_table_records)
  with Cons c show ?case by (simp add: add.assoc)
qed

lemma unat_count_descrs:
  assumes "counts_ok m fts"
  shows "unat (count_descrs m fts 0) = length (all_records m fts)"
proof -
  from assms have nonneg: "\<forall>tbl \<in> set fts. 0 \<le> sint (load_word m tbl)"
    and small: "length (all_records m fts) \<le> 2 ^ 61"
    by (simp_all add: counts_ok_def)
  have "(2::nat) ^ 61 < 2 ^ LENGTH(64)" by simp
  with small have "length (all_records m fts) < 2 ^ LENGTH(64)" by (rule le_less_trans)
  then have "unat (of_nat (length (all_records m fts)) :: 64 word) = length (all_records m fts)"
    by (simp only: unat_of_nat mod_less)
  with count_descrs_sum [OF nonneg, of 0] show ?thesis by simp
qed

subsection \<open>The built table\<close>

lemma tblsize_exponent:
  assumes "counts_ok m fts"
  shows "\<exists>j. 2 \<le> j \<and> j \<le> 62 \<and> grow_tblsize 4 (count_descrs m fts 0) = Some (2 ^ j) \<and>
     2 * length (all_records m fts) \<le> 2 ^ j \<and>
     (\<forall>i. 2 \<le> i \<and> i < j \<longrightarrow> 2 ^ i < 2 * length (all_records m fts))"
proof -
  let ?n = "count_descrs m fts 0"
  have n: "unat ?n = length (all_records m fts)"
    using assms by (rule unat_count_descrs)
  from assms have "unat ?n \<le> 2 ^ 61" by (simp add: n counts_ok_def)
  from grow_tblsize_pow2 [OF this, of 2] obtain j where
    "2 \<le> j" "j \<le> 62" "grow_tblsize (2 ^ 2) ?n = Some (2 ^ j)" "2 * unat ?n \<le> 2 ^ j"
    "\<forall>i. 2 \<le> i \<and> i < j \<longrightarrow> 2 ^ i < 2 * unat ?n" by auto
  then show ?thesis unfolding n by (intro exI [of _ j]) simp
qed

lemma nat_sint_pow2: "j \<le> 62 \<Longrightarrow> nat (sint (2 ^ j :: 64 word)) = 2 ^ j"
proof -
  assume j: "j \<le> 62"
  then have "j < 64" by simp
  then have u: "unat (2 ^ j :: 64 word) = 2 ^ j" by (rule unat_pow2)
  have "(2::nat) ^ j < 2 ^ 63" using j by (intro power_strict_increasing) simp_all
  then have "sint (2 ^ j :: 64 word) = int (unat (2 ^ j :: 64 word))"
    using sint_eq_unat [of "2 ^ j"] by (simp only: u)
  then show ?thesis by (simp only: u nat_int)
qed

lemma build_frame_descriptors_alloced:
  assumes "grow_tblsize 4 (count_descrs m fts 0) = Some (2 ^ j)" "j \<le> 62"
  shows "build_frame_descriptors hash m hp (Alloced a) fts =
     (case fill_tables hash m (2 ^ j) (2 ^ j - 1) fts (replicate (2 ^ j) 0) of
        None \<Rightarrow> None
      | Some (Inl (e, descr)) \<Rightarrow> Some (Inl (e, hp(a \<mapsto> Array descr)))
      | Some (Inr descr) \<Rightarrow>
          Some (Inr (\<lparr>descriptors = a, mask_fd = 2 ^ j - 1\<rparr>, hp(a \<mapsto> Array descr))))"
  using assms
  by (simp add: build_frame_descriptors_def caml_stat_alloc_def nat_sint_pow2
      split: option.splits sum.splits)

lemma build_frame_descriptors_failed:
  "build_frame_descriptors hash m hp Alloc_failed fts \<noteq> Some (Inr res)"
  by (simp add: build_frame_descriptors_def caml_stat_alloc_def split: option.splits)

lemma table_ok_empty: "table_ok hash m k (replicate (2 ^ k) 0) []"
  by (simp add: table_ok_def occupied_replicate)

lemma build_ok:
  assumes c: "counts_ok m fts" and r: "records_ok m fts"
  shows "\<exists>j descr. 2 \<le> j \<and> j \<le> 62 \<and>
     2 * length (all_records m fts) \<le> 2 ^ j \<and>
     (\<forall>i. 2 \<le> i \<and> i < j \<longrightarrow> 2 ^ i < 2 * length (all_records m fts)) \<and>
     build_frame_descriptors hash m hp (Alloced a) fts =
       Some (Inr (\<lparr>descriptors = a, mask_fd = 2 ^ j - 1\<rparr>, hp(a \<mapsto> Array descr))) \<and>
     table_ok hash m j descr (all_records m fts)"
proof -
  from tblsize_exponent [OF c] obtain j where
    j: "2 \<le> j" "j \<le> 62" and g: "grow_tblsize 4 (count_descrs m fts 0) = Some (2 ^ j)" and
    big: "2 * length (all_records m fts) \<le> 2 ^ j" and
    least: "\<forall>i. 2 \<le> i \<and> i < j \<longrightarrow> 2 ^ i < 2 * length (all_records m fts)" by blast
  have k: "j < 64" using j by simp
  have "(0::nat) < 2 ^ j" by simp
  with big have "length (all_records m fts) < 2 ^ j" by linarith
  then have room: "length ([] :: addr list) + length (all_records m fts) < 2 ^ j" by simp
  from r have recs: "\<forall>d \<in> set (all_records m fts). d \<noteq> 0 \<and> 4096 \<le> retaddr m d"
    by (simp add: records_ok_def)
  from fill_tables_ok [OF k table_ok_empty room recs] obtain descr where
    f: "fill_tables hash m (2 ^ j) (2 ^ j - 1) fts (replicate (2 ^ j) 0) = Some (Inr descr)" and
    ok: "table_ok hash m j descr ([] @ all_records m fts)" by blast
  have "build_frame_descriptors hash m hp (Alloced a) fts =
       Some (Inr (\<lparr>descriptors = a, mask_fd = 2 ^ j - 1\<rparr>, hp(a \<mapsto> Array descr)))"
    by (simp add: build_frame_descriptors_alloced [OF g j(2)] f)
  with j big least ok show ?thesis by auto
qed

lemma build_result:
  assumes c: "counts_ok m fts"
    and b: "build_frame_descriptors hash m hp r fts = Some (Inr (fds, hp'))"
  shows "\<exists>j a descr. 2 \<le> j \<and> j \<le> 62 \<and>
     2 * length (all_records m fts) \<le> 2 ^ j \<and>
     (\<forall>i. 2 \<le> i \<and> i < j \<longrightarrow> 2 ^ i < 2 * length (all_records m fts)) \<and>
     r = Alloced a \<and> fds = \<lparr>descriptors = a, mask_fd = 2 ^ j - 1\<rparr> \<and>
     hp' = hp(a \<mapsto> Array descr) \<and> length descr = 2 ^ j \<and>
     occupied descr \<le> length (all_records m fts)"
proof -
  from tblsize_exponent [OF c] obtain j where
    j: "2 \<le> j" "j \<le> 62" and g: "grow_tblsize 4 (count_descrs m fts 0) = Some (2 ^ j)" and
    big: "2 * length (all_records m fts) \<le> 2 ^ j" and
    least: "\<forall>i. 2 \<le> i \<and> i < j \<longrightarrow> 2 ^ i < 2 * length (all_records m fts)" by blast
  from b obtain a where a: "r = Alloced a"
    using build_frame_descriptors_failed [of hash m hp fts] by (cases r) auto
  from b [unfolded a build_frame_descriptors_alloced [OF g j(2)]] obtain descr where
    f: "fill_tables hash m (2 ^ j) (2 ^ j - 1) fts (replicate (2 ^ j) 0) = Some (Inr descr)" and
    res: "fds = \<lparr>descriptors = a, mask_fd = 2 ^ j - 1\<rparr>" "hp' = hp(a \<mapsto> Array descr)"
    by (auto split: option.splits sum.splits)
  from fill_tables_occupied [OF f] have "length descr = 2 ^ j"
    and "occupied descr \<le> length (all_records m fts)"
    by (simp_all add: occupied_replicate)
  with j big least a res show ?thesis by blast
qed

subsection \<open>Lookups in a table that keeps the probe paths\<close>

lemma lookup_returns:
  assumes len: "length descr = 2 ^ k" and k: "k < 64" and occ: "occupied descr < 2 ^ k"
  shows "\<exists>r. find_loop m descr (2 ^ k - 1) pc (Hash_retaddr hash pc (2 ^ k - 1)) = Some (Inr r) \<and>
     (r = 0 \<or> (retaddr m r = pc \<and> r \<in> set descr))"
proof -
  let ?h0 = "Hash_retaddr hash pc (2 ^ k - 1)"
  have s: "unat ?h0 < 2 ^ k" by (rule unat_Hash_retaddr_less)
  from occ len have "occupied descr < length descr" by simp
  then obtain e where e: "e < 2 ^ k" "descr ! e = 0"
    using exists_empty_slot len by metis
  from first_empty_slot [OF e s] obtain j where
    "descr ! ((unat ?h0 + j) mod 2 ^ k) = 0" by blast
  from find_loop_returns [OF k len this s] show ?thesis .
qed

lemma lookup_hit:
  assumes ok: "table_ok hash m k descr recs" and k: "k < 64" and d: "d \<in> set recs"
    and uniq: "distinct (map (retaddr m) recs)"
  shows "find_loop m descr (2 ^ k - 1) (retaddr m d) (Hash_retaddr hash (retaddr m d) (2 ^ k - 1)) =
     Some (Inr d)"
proof -
  let ?h0 = "Hash_retaddr hash (retaddr m d) (2 ^ k - 1)"
  from ok have len: "length descr = 2 ^ k" and nz: "0 \<notin> set recs"
    and paths: "\<forall>d \<in> set recs. on_probe_path descr (unat (Hash_retaddr hash (retaddr m d) (2 ^ k - 1))) d"
    and sub: "\<forall>i < length descr. descr ! i \<noteq> 0 \<longrightarrow> descr ! i \<in> set recs"
    by (simp_all add: table_ok_def)
  have s: "unat ?h0 < 2 ^ k" by (rule unat_Hash_retaddr_less)
  from d nz have d0: "d \<noteq> 0" by auto
  from uniq have inj: "inj_on (retaddr m) (set recs)" by (simp add: distinct_map)
  have only: "\<forall>i < length descr. descr ! i \<noteq> 0 \<and> retaddr m (descr ! i) = retaddr m d \<longrightarrow> descr ! i = d"
  proof (intro allI impI)
    fix i assume i: "i < length descr"
      and "descr ! i \<noteq> 0 \<and> retaddr m (descr ! i) = retaddr m d"
    then have "descr ! i \<in> set recs" "retaddr m (descr ! i) = retaddr m d"
      using sub by simp_all
    with inj d show "descr ! i = d" by (simp add: inj_on_def)
  qed
  from paths d have "on_probe_path descr (unat ?h0) d" by blast
  then obtain j where
    j: "descr ! ((unat ?h0 + j) mod 2 ^ k) = d" and
    before: "\<forall>i < j. descr ! ((unat ?h0 + i) mod 2 ^ k) \<noteq> 0"
    unfolding on_probe_path_def len by blast
  from find_loop_hit [OF k len d0 refl only j before s] show ?thesis .
qed

lemma lookup_miss:
  assumes ok: "table_ok hash m k descr recs" and k: "k < 64" and room: "length recs < 2 ^ k"
    and pc: "pc \<notin> retaddr m ` set recs"
  shows "find_loop m descr (2 ^ k - 1) pc (Hash_retaddr hash pc (2 ^ k - 1)) = Some (Inr 0)"
proof -
  from ok have len: "length descr = 2 ^ k"
    and sub: "\<forall>i < length descr. descr ! i \<noteq> 0 \<longrightarrow> descr ! i \<in> set recs"
    and occ: "occupied descr \<le> length recs"
    by (simp_all add: table_ok_def)
  from occ room have "occupied descr < 2 ^ k" by simp
  from lookup_returns [OF len k this, of m pc hash] obtain r where
    r: "find_loop m descr (2 ^ k - 1) pc (Hash_retaddr hash pc (2 ^ k - 1)) = Some (Inr r)" and
    alt: "r = 0 \<or> (retaddr m r = pc \<and> r \<in> set descr)" by blast
  have "r = 0"
  proof (rule ccontr)
    assume ne: "r \<noteq> 0"
    with alt have "retaddr m r = pc" "r \<in> set descr" by simp_all
    then obtain i where "i < length descr" "descr ! i = r"
      by (auto simp: in_set_conv_nth)
    with sub ne have "r \<in> set recs" by auto
    with \<open>retaddr m r = pc\<close> pc show False by auto
  qed
  with r show ?thesis by simp
qed

lemma table_entries_registered:
  assumes "table_ok hash m k descr recs" "x \<in> set descr"
  shows "x = 0 \<or> x \<in> set recs"
proof -
  from assms(2) obtain i where "i < length descr" "descr ! i = x"
    by (auto simp: in_set_conv_nth)
  with assms(1) show ?thesis by (auto simp: table_ok_def)
qed

subsection \<open>The example memory, evaluated\<close>

lemma example_next_1: "next_frame_descr_ptr example_mem 0x10008 = 0x10018"
  unfolding next_frame_descr_ptr_def Let_def
  by (simp add: example_mem_def live_ofs_addr_def num_live_def frame_size_def Align_to_def)

lemma example_next_2: "next_frame_descr_ptr example_mem 0x10018 = 0x10028"
  unfolding next_frame_descr_ptr_def Let_def
  by (simp add: example_mem_def live_ofs_addr_def num_live_def frame_size_def Align_to_def)

lemma example_table_records_1:
  "table_records example_mem 0x10000 = [0x10008, 0x10018, 0x10028]"
proof -
  have "nat (sint (load_word example_mem 0x10000)) = Suc (Suc (Suc 0))"
    by (simp add: example_mem_def)
  then show ?thesis
    by (simp add: table_records_def example_next_1 example_next_2)
qed

lemma example_table_records_2: "table_records example_mem 0x20000 = [0x20008]"
proof -
  have "nat (sint (load_word example_mem 0x20000)) = Suc 0"
    by (simp add: example_mem_def)
  then show ?thesis
    by (simp add: table_records_def)
qed

lemma example_all_records:
  "all_records example_mem [0x20000, 0x10000] = [0x20008, 0x10008, 0x10018, 0x10028]"
  by (simp add: all_records_def example_table_records_1 example_table_records_2)

lemma example_counts_ok: "counts_ok example_mem [0x20000, 0x10000]"
  unfolding counts_ok_def example_all_records
  by (simp add: example_mem_def)

lemma example_records_ok: "records_ok example_mem [0x20000, 0x10000]"
  unfolding records_ok_def example_all_records
  by (simp add: example_mem_def retaddr_def)

lemma example_unique_retaddrs: "unique_retaddrs example_mem [0x20000, 0x10000]"
  unfolding unique_retaddrs_def example_all_records
  by (simp add: example_mem_def retaddr_def)

lemma example_count_3: "count_descrs example_mem [0x10000] 0 = 3"
  by (simp add: example_mem_def)

lemma example_tblsize_8: "grow_tblsize 4 (count_descrs example_mem [0x10000] 0) = Some 8"
  unfolding example_count_3
  by (simp add: grow_tblsize.simps)

lemma example_all_records_1:
  "all_records example_mem [0x10000] = [0x10008, 0x10018, 0x10028]"
  by (simp add: all_records_def example_table_records_1)

lemma example_counts_ok_1: "counts_ok example_mem [0x10000]"
  unfolding counts_ok_def example_all_records_1
  by (simp add: example_mem_def)

subsection \<open>Lookup of registered records, and the size of the table\<close>

text \<open>
  C1.  Under the generator's contract (well-formed counts and records, no return
  address shared by two records), \<^verbatim>\<open>build_frame_descriptors\<close> returns a table in
  which the lookup of the return address of every record of every table of the chain,
  wherever that table stands in the chain, returns the address of that very
  record; the lookup of an address that no record carries returns \<^verbatim>\<open>NULL\<close>, and every
  slot of the array is empty or holds a registered record.
\<close>

theorem lookup_finds_every_registered_record:
  assumes "counts_ok m fts" and "records_ok m fts" and "unique_retaddrs m fts"
  shows "\<exists>fds hp' descr.
     build_frame_descriptors hash m hp (Alloced a) fts = Some (Inr (fds, hp')) \<and>
     (\<forall>tbl \<in> set fts. \<forall>d \<in> set (table_records m tbl).
        caml_find_frame_descr hash m hp' fds (retaddr m d) = Some (Inr d)) \<and>
     (\<forall>pc. pc \<notin> retaddr m ` set (all_records m fts) \<longrightarrow>
        caml_find_frame_descr hash m hp' fds pc = Some (Inr 0)) \<and>
     hp' (descriptors fds) = Some (Array descr) \<and>
     (\<forall>x \<in> set descr. x = 0 \<or> x \<in> set (all_records m fts))"
proof -
  from build_ok [OF assms(1) assms(2), of hash hp a] obtain j descr where
    j: "j \<le> 62" and big: "2 * length (all_records m fts) \<le> 2 ^ j" and
    b: "build_frame_descriptors hash m hp (Alloced a) fts =
          Some (Inr (\<lparr>descriptors = a, mask_fd = 2 ^ j - 1\<rparr>, hp(a \<mapsto> Array descr)))" and
    ok: "table_ok hash m j descr (all_records m fts)" by blast
  let ?fds = "\<lparr>descriptors = a, mask_fd = 2 ^ j - 1\<rparr>"
  let ?hp = "hp(a \<mapsto> Array descr)"
  have k: "j < 64" using j by simp
  have "(0::nat) < 2 ^ j" by simp
  with big have room: "length (all_records m fts) < 2 ^ j" by linarith
  from assms(3) have uniq: "distinct (map (retaddr m) (all_records m fts))"
    by (simp add: unique_retaddrs_def)
  have find: "caml_find_frame_descr hash m ?hp ?fds pc =
      find_loop m descr (2 ^ j - 1) pc (Hash_retaddr hash pc (2 ^ j - 1))" for pc
    by (simp add: caml_find_frame_descr_def)
  have hits: "\<forall>tbl \<in> set fts. \<forall>d \<in> set (table_records m tbl).
      caml_find_frame_descr hash m ?hp ?fds (retaddr m d) = Some (Inr d)"
  proof (intro ballI)
    fix tbl d assume "tbl \<in> set fts" "d \<in> set (table_records m tbl)"
    then have "d \<in> set (all_records m fts)" by (auto simp: all_records_def)
    from lookup_hit [OF ok k this uniq] show
      "caml_find_frame_descr hash m ?hp ?fds (retaddr m d) = Some (Inr d)"
      by (simp only: find)
  qed
  have misses: "\<forall>pc. pc \<notin> retaddr m ` set (all_records m fts) \<longrightarrow>
      caml_find_frame_descr hash m ?hp ?fds pc = Some (Inr 0)"
    using lookup_miss [OF ok k room] by (simp only: find) blast
  have entries: "\<forall>x \<in> set descr. x = 0 \<or> x \<in> set (all_records m fts)"
    using table_entries_registered [OF ok] by blast
  have "?hp (descriptors ?fds) = Some (Array descr)" by simp
  with b hits misses entries show ?thesis by blast
qed

theorem lookup_finds_every_registered_record_witness:
  "counts_ok example_mem [0x20000, 0x10000] \<and> records_ok example_mem [0x20000, 0x10000] \<and>
   unique_retaddrs example_mem [0x20000, 0x10000] \<and>
   (\<exists>fds hp'.
      build_frame_descriptors example_hash example_mem Map.empty (Alloced 0x7000)
        [0x20000, 0x10000] = Some (Inr (fds, hp')) \<and>
      caml_find_frame_descr example_hash example_mem hp' fds 0x401000 = Some (Inr 0x10008) \<and>
      caml_find_frame_descr example_hash example_mem hp' fds 0x401040 = Some (Inr 0x10018) \<and>
      caml_find_frame_descr example_hash example_mem hp' fds 0x401080 = Some (Inr 0x10028) \<and>
      caml_find_frame_descr example_hash example_mem hp' fds 0x402000 = Some (Inr 0x20008) \<and>
      caml_find_frame_descr example_hash example_mem hp' fds 0x401008 = Some (Inr 0))"
proof -
  have ra: "retaddr example_mem 0x10008 = 0x401000" "retaddr example_mem 0x10018 = 0x401040"
    "retaddr example_mem 0x10028 = 0x401080" "retaddr example_mem 0x20008 = 0x402000"
    by (simp_all add: retaddr_def example_mem_def)
  from lookup_finds_every_registered_record
    [OF example_counts_ok example_records_ok example_unique_retaddrs,
     of example_hash Map.empty "0x7000"]
  obtain fds hp' where
    b: "build_frame_descriptors example_hash example_mem Map.empty (Alloced 0x7000)
          [0x20000, 0x10000] = Some (Inr (fds, hp'))" and
    hits: "\<forall>tbl \<in> set [0x20000, 0x10000]. \<forall>d \<in> set (table_records example_mem tbl).
        caml_find_frame_descr example_hash example_mem hp' fds (retaddr example_mem d) = Some (Inr d)" and
    misses: "\<forall>pc. pc \<notin> retaddr example_mem ` set (all_records example_mem [0x20000, 0x10000]) \<longrightarrow>
        caml_find_frame_descr example_hash example_mem hp' fds pc = Some (Inr 0)"
    by blast
  from hits have h: "caml_find_frame_descr example_hash example_mem hp' fds 0x401000 = Some (Inr 0x10008)"
    "caml_find_frame_descr example_hash example_mem hp' fds 0x401040 = Some (Inr 0x10018)"
    "caml_find_frame_descr example_hash example_mem hp' fds 0x401080 = Some (Inr 0x10028)"
    "caml_find_frame_descr example_hash example_mem hp' fds 0x402000 = Some (Inr 0x20008)"
    by (simp_all add: example_table_records_1 example_table_records_2 ra)
  have "(0x401008 :: 64 word) \<notin> retaddr example_mem ` set (all_records example_mem [0x20000, 0x10000])"
    by (simp add: example_all_records ra)
  with misses have "caml_find_frame_descr example_hash example_mem hp' fds 0x401008 = Some (Inr 0)"
    by blast
  with b h example_counts_ok example_records_ok example_unique_retaddrs show ?thesis
    by blast
qed

text \<open>
  C5.  With well-formed counts, the loop on \<^verbatim>\<open>tblsize\<close> ends on a power of two
  \<open>2 ^ j\<close> (with \<open>j\<close> from 2 to 62, so within the range of \<^verbatim>\<open>intnat\<close>) that is at least
  twice the number \<open>n\<close> of descriptors counted along the chain, and no smaller power
  of two from 4 on is at least \<open>2 * n\<close>.  Every table that
  \<^verbatim>\<open>build_frame_descriptors\<close> returns has that many slots, \<^verbatim>\<open>mask = tblsize - 1\<close>, and
  at most half of its slots are occupied.
\<close>

theorem tblsize_smallest_power_of_two:
  assumes "counts_ok m fts"
  shows "\<exists>j. grow_tblsize 4 (count_descrs m fts 0) = Some (2 ^ j) \<and> 2 \<le> j \<and> j \<le> 62 \<and>
     2 * unat (count_descrs m fts 0) \<le> 2 ^ j \<and>
     (\<forall>i. 2 \<le> i \<and> 2 * unat (count_descrs m fts 0) \<le> 2 ^ i \<longrightarrow> j \<le> i) \<and>
     (\<forall>hash hp r fds hp'.
        build_frame_descriptors hash m hp r fts = Some (Inr (fds, hp')) \<longrightarrow>
        (\<exists>descr. hp' (descriptors fds) = Some (Array descr) \<and> length descr = 2 ^ j \<and>
           mask_fd fds = 2 ^ j - 1 \<and> 2 * occupied descr \<le> length descr))"
proof -
  let ?n = "length (all_records m fts)"
  have n: "unat (count_descrs m fts 0) = ?n"
    using assms by (rule unat_count_descrs)
  from tblsize_exponent [OF assms] obtain j where
    j: "2 \<le> j" "j \<le> 62" and g: "grow_tblsize 4 (count_descrs m fts 0) = Some (2 ^ j)" and
    big: "2 * ?n \<le> 2 ^ j" and
    least: "\<forall>i. 2 \<le> i \<and> i < j \<longrightarrow> 2 ^ i < 2 * ?n" by blast
  have minimal: "\<forall>i. 2 \<le> i \<and> 2 * ?n \<le> 2 ^ i \<longrightarrow> j \<le> i"
  proof (intro allI impI)
    fix i assume i: "2 \<le> i \<and> 2 * ?n \<le> 2 ^ i"
    show "j \<le> i"
    proof (rule ccontr)
      assume "\<not> j \<le> i"
      with i least have "2 ^ i < 2 * ?n" by simp
      with i show False by simp
    qed
  qed
  have built: "\<exists>descr. hp' (descriptors fds) = Some (Array descr) \<and> length descr = 2 ^ j \<and>
           mask_fd fds = 2 ^ j - 1 \<and> 2 * occupied descr \<le> length descr"
    if b: "build_frame_descriptors hash m hp r fts = Some (Inr (fds, hp'))"
    for hash hp r fds hp'
  proof -
    from b obtain a where res: "r = Alloced a"
      using build_frame_descriptors_failed [of hash m hp fts] by (cases r) auto
    from b res build_frame_descriptors_alloced [OF g j(2), of hash hp a]
    have "fds = \<lparr>descriptors = a, mask_fd = 2 ^ j - 1\<rparr> \<and>
        (\<exists>d. hp' = hp(a \<mapsto> Array d) \<and>
             fill_tables hash m (2 ^ j) (2 ^ j - 1) fts (replicate (2 ^ j) 0) = Some (Inr d))"
      by (auto split: option.splits sum.splits)
    then obtain d where fds: "fds = \<lparr>descriptors = a, mask_fd = 2 ^ j - 1\<rparr>"
      and hp': "hp' = hp(a \<mapsto> Array d)"
      and f: "fill_tables hash m (2 ^ j) (2 ^ j - 1) fts (replicate (2 ^ j) 0) = Some (Inr d)"
      by blast
    from fill_tables_occupied [OF f] have "length d = 2 ^ j" "occupied d \<le> ?n"
      by (simp_all add: occupied_replicate)
    with big fds hp' show ?thesis by simp
  qed
  from g j big minimal built show ?thesis
    unfolding n by blast
qed

lemma example_records_ok_1: "records_ok example_mem [0x10000]"
  unfolding records_ok_def example_all_records_1
  by (simp add: example_mem_def retaddr_def)

theorem tblsize_smallest_power_of_two_witness:
  "counts_ok example_mem [0x10000] \<and>
   unat (count_descrs example_mem [0x10000] 0) = 3 \<and>
   grow_tblsize 4 (count_descrs example_mem [0x10000] 0) = Some 8 \<and>
   (\<exists>fds hp' descr.
      build_frame_descriptors example_hash example_mem Map.empty (Alloced 0x7000) [0x10000] =
        Some (Inr (fds, hp')) \<and>
      hp' (descriptors fds) = Some (Array descr) \<and> length descr = 8 \<and> mask_fd fds = 7 \<and>
      2 * occupied descr \<le> length descr)"
proof -
  have n: "unat (count_descrs example_mem [0x10000] 0) = 3"
    unfolding example_count_3 by simp
  from tblsize_smallest_power_of_two [OF example_counts_ok_1, unfolded n] obtain j where
    j2: "2 \<le> j" and big: "2 * (3::nat) \<le> 2 ^ j" and
    minimal: "\<forall>i. 2 \<le> i \<and> 2 * (3::nat) \<le> 2 ^ i \<longrightarrow> j \<le> i" and
    built: "\<forall>hash hp r fds hp'.
        build_frame_descriptors hash example_mem hp r [0x10000] = Some (Inr (fds, hp')) \<longrightarrow>
        (\<exists>descr. hp' (descriptors fds) = Some (Array descr) \<and> length descr = 2 ^ j \<and>
           mask_fd fds = 2 ^ j - 1 \<and> 2 * occupied descr \<le> length descr)"
    by blast
  have "2 \<le> (3::nat) \<and> 2 * (3::nat) \<le> 2 ^ 3"
    by simp
  with minimal have "j \<le> 3" by blast
  moreover have "j \<noteq> 2" using big by auto
  ultimately have j: "j = 3" using j2 by simp
  from build_ok [OF example_counts_ok_1 example_records_ok_1, of example_hash Map.empty "0x7000"]
  obtain fds hp' where
    b: "build_frame_descriptors example_hash example_mem Map.empty (Alloced 0x7000) [0x10000] =
        Some (Inr (fds, hp'))" by blast
  with built obtain descr where
    "hp' (descriptors fds) = Some (Array descr)" "length descr = 2 ^ j"
    "mask_fd fds = 2 ^ j - 1" "2 * occupied descr \<le> length descr" by blast
  then have "hp' (descriptors fds) = Some (Array descr) \<and> length descr = 8 \<and> mask_fd fds = 7 \<and>
      2 * occupied descr \<le> length descr"
    by (simp add: j)
  with b n example_counts_ok_1 example_tblsize_8 show ?thesis by blast
qed

text \<open>
  C6.  In a table that \<^verbatim>\<open>build_frame_descriptors\<close> returned for a chain with
  well-formed counts, at least one slot is empty, and for every program counter, registered
  or not, the probe loop of \<^verbatim>\<open>caml_find_frame_descr\<close> leaves: the call returns, without
  an error, either \<^verbatim>\<open>NULL\<close> or a record whose return address is that program counter.
\<close>

theorem find_frame_descr_terminates:
  assumes "counts_ok m fts"
    and "build_frame_descriptors hash m hp r fts = Some (Inr (fds, hp'))"
  shows "(\<exists>descr e. hp' (descriptors fds) = Some (Array descr) \<and> e < length descr \<and> descr ! e = 0) \<and>
     (\<forall>pc. \<exists>d. caml_find_frame_descr hash m hp' fds pc = Some (Inr d) \<and>
              (d = 0 \<or> retaddr m d = pc))"
proof -
  let ?n = "length (all_records m fts)"
  from build_result [OF assms] obtain j a descr where
    j: "j \<le> 62" and big: "2 * ?n \<le> 2 ^ j" and
    fds: "fds = \<lparr>descriptors = a, mask_fd = 2 ^ j - 1\<rparr>" and
    hp': "hp' = hp(a \<mapsto> Array descr)" and len: "length descr = 2 ^ j" and
    occ: "occupied descr \<le> ?n" by blast
  have k: "j < 64" using j by simp
  have "(0::nat) < 2 ^ j" by simp
  with big occ have free: "occupied descr < 2 ^ j" by linarith
  then have "occupied descr < length descr" by (simp only: len)
  then obtain e where "e < length descr" "descr ! e = 0"
    using exists_empty_slot by blast
  moreover have arr: "hp' (descriptors fds) = Some (Array descr)"
    by (simp add: fds hp')
  ultimately have empty: "\<exists>descr e. hp' (descriptors fds) = Some (Array descr) \<and>
      e < length descr \<and> descr ! e = 0" by blast
  have "\<exists>d. caml_find_frame_descr hash m hp' fds pc = Some (Inr d) \<and> (d = 0 \<or> retaddr m d = pc)"
    for pc
  proof -
    have "caml_find_frame_descr hash m hp' fds pc =
        find_loop m descr (2 ^ j - 1) pc (Hash_retaddr hash pc (2 ^ j - 1))"
      using arr by (simp add: caml_find_frame_descr_def fds)
    with lookup_returns [OF len k free, of m pc hash] show ?thesis by auto
  qed
  with empty show ?thesis by blast
qed

theorem find_frame_descr_terminates_witness:
  "counts_ok example_mem [0x20000, 0x10000] \<and>
   (\<exists>fds hp'.
      build_frame_descriptors example_hash example_mem Map.empty (Alloced 0x7000)
        [0x20000, 0x10000] = Some (Inr (fds, hp')) \<and>
      (\<exists>descr e. hp' (descriptors fds) = Some (Array descr) \<and> e < length descr \<and> descr ! e = 0) \<and>
      (\<exists>d. caml_find_frame_descr example_hash example_mem hp' fds 0x401008 = Some (Inr d) \<and>
           (d = 0 \<or> retaddr example_mem d = 0x401008)))"
proof -
  from build_ok [OF example_counts_ok example_records_ok, of example_hash Map.empty "0x7000"]
  obtain fds hp' where
    b: "build_frame_descriptors example_hash example_mem Map.empty (Alloced 0x7000)
          [0x20000, 0x10000] = Some (Inr (fds, hp'))" by blast
  from find_frame_descr_terminates [OF example_counts_ok b] b example_counts_ok
  show ?thesis by blast
qed

subsection \<open>The shape of a successful call\<close>

lemma build_success_shape:
  assumes "build_frame_descriptors hash m hp r fts = Some (Inr (fds, hp'))"
  shows "\<exists>a descr. r = Alloced a \<and> descriptors fds = a \<and> hp' = hp(a \<mapsto> Array descr)"
  using assms
  by (cases r)
    (auto simp: build_frame_descriptors_def caml_stat_alloc_def
      split: option.splits sum.splits prod.splits)

lemma build_error_shape:
  assumes "build_frame_descriptors hash m hp r fts = Some (Inl (e, hp'))"
  shows "hp' = hp \<or> (\<exists>a descr. r = Alloced a \<and> hp' = hp(a \<mapsto> Array descr))"
  using assms
  by (cases r)
    (auto simp: build_frame_descriptors_def caml_stat_alloc_def
      split: option.splits sum.splits prod.splits)

lemma register_success_shape:
  assumes "caml_register_frametable hash m cycles tbl r_link r_ft r_tbl s = Some (Inr s')"
  shows "\<exists>ft a descr msk lnk. r_link = Alloced lnk \<and> r_ft = Alloced ft \<and> r_tbl = Alloced a \<and>
     current_frametable s \<noteq> 0 \<and>
     s' = \<lparr>heap = (heap s)(ft \<mapsto> Raw, a \<mapsto> Array descr,
                 ft \<mapsto> Version \<lparr>table = \<lparr>descriptors = a, mask_fd = msk\<rparr>,
                                 free_prev_after_cycle = cycles,
                                 prev = current_frametable s\<rparr>),
           frametables = tbl # frametables s,
           current_frametable = ft\<rparr>"
proof -
  from assms obtain lnk where l: "r_link = Alloced lnk"
    by (cases r_link) (auto simp: caml_register_frametable_def cons_def)
  from assms l have c: "current_frametable s \<noteq> 0"
    by (auto simp: caml_register_frametable_def cons_def split: if_splits)
  from assms l c obtain ft where f: "r_ft = Alloced ft"
    by (cases r_ft) (auto simp: caml_register_frametable_def cons_def caml_stat_alloc_def)
  from assms l c f obtain fds hp2 where
    b: "build_frame_descriptors hash m ((heap s)(ft \<mapsto> Raw)) r_tbl (tbl # frametables s) =
          Some (Inr (fds, hp2))" and
    s': "s' = \<lparr>heap = hp2(ft \<mapsto> Version \<lparr>table = fds, free_prev_after_cycle = cycles,
                                         prev = current_frametable s\<rparr>),
              frametables = tbl # frametables s, current_frametable = ft\<rparr>"
    by (auto simp: caml_register_frametable_def cons_def caml_stat_alloc_def
        split: option.splits sum.splits prod.splits)
  from build_success_shape [OF b] obtain a descr where
    a: "r_tbl = Alloced a" "descriptors fds = a" "hp2 = (heap s)(ft \<mapsto> Raw, a \<mapsto> Array descr)"
    by blast
  have "fds = \<lparr>descriptors = a, mask_fd = mask_fd fds\<rparr>" using a(2) by simp
  with l c f a s' show ?thesis by metis
qed

lemma init_success_shape:
  assumes "caml_init_frame_descriptors hash m caml_frametable r_links r_ft r_tbl s = Some (Inr s')"
  shows "\<exists>ft a descr msk fts. r_ft = Alloced ft \<and> r_tbl = Alloced a \<and>
     s' = \<lparr>heap = (heap s)(ft \<mapsto> Raw, a \<mapsto> Array descr,
                 ft \<mapsto> Version \<lparr>table = \<lparr>descriptors = a, mask_fd = msk\<rparr>,
                                 free_prev_after_cycle = No_need_to_free,
                                 prev = 0\<rparr>),
           frametables = fts,
           current_frametable = ft\<rparr>"
proof -
  from assms obtain fts where
    l: "init_loop r_links 0 caml_frametable (frametables s) = Inr fts"
    by (auto simp: caml_init_frame_descriptors_def split: sum.splits prod.splits)
  from assms l obtain ft where f: "r_ft = Alloced ft"
    by (cases r_ft) (auto simp: caml_init_frame_descriptors_def caml_stat_alloc_def)
  from assms l f obtain fds hp2 where
    b: "build_frame_descriptors hash m ((heap s)(ft \<mapsto> Raw)) r_tbl fts = Some (Inr (fds, hp2))" and
    s': "s' = \<lparr>heap = hp2(ft \<mapsto> Version \<lparr>table = fds, free_prev_after_cycle = No_need_to_free,
                                         prev = 0\<rparr>),
              frametables = fts, current_frametable = ft\<rparr>"
    by (auto simp: caml_init_frame_descriptors_def caml_stat_alloc_def
        split: option.splits sum.splits prod.splits)
  from build_success_shape [OF b] obtain a descr where
    a: "r_tbl = Alloced a" "descriptors fds = a" "hp2 = (heap s)(ft \<mapsto> Raw, a \<mapsto> Array descr)"
    by blast
  have "fds = \<lparr>descriptors = a, mask_fd = mask_fd fds\<rparr>" using a(2) by simp
  with f a s' show ?thesis by metis
qed

subsection \<open>Determinism of the build, and the epoch guard\<close>

text \<open>
  C9.  The table that \<^verbatim>\<open>build_frame_descriptors\<close> builds for a chain depends on nothing
  but the chain and the records in memory: two runs on the same chain, whatever the
  heaps they start from and whatever blocks the allocator hands out, return the same
  mask and arrays with the same contents, that is the same size and the same record in
  every slot.
\<close>

theorem build_frame_descriptors_deterministic:
  assumes "build_frame_descriptors hash m hp1 r1 fts = Some (Inr (fds1, hp1'))"
    and "build_frame_descriptors hash m hp2 r2 fts = Some (Inr (fds2, hp2'))"
  shows "mask_fd fds1 = mask_fd fds2 \<and>
     (\<exists>descr. hp1' (descriptors fds1) = Some (Array descr) \<and>
              hp2' (descriptors fds2) = Some (Array descr))"
proof -
  from assms(1) obtain a1 tblsize descr1 where
    1: "r1 = Alloced a1" "grow_tblsize 4 (count_descrs m fts 0) = Some tblsize"
      "fill_tables hash m tblsize (tblsize - 1) fts (replicate (nat (sint tblsize)) 0) =
         Some (Inr descr1)"
      "fds1 = \<lparr>descriptors = a1, mask_fd = tblsize - 1\<rparr>"
      "hp1' = hp1(a1 \<mapsto> Raw, a1 \<mapsto> Array descr1)"
    by (cases r1)
      (auto simp: build_frame_descriptors_def caml_stat_alloc_def
        split: option.splits sum.splits prod.splits)
  from assms(2) 1(2) obtain a2 descr2 where
    2: "r2 = Alloced a2"
      "fill_tables hash m tblsize (tblsize - 1) fts (replicate (nat (sint tblsize)) 0) =
         Some (Inr descr2)"
      "fds2 = \<lparr>descriptors = a2, mask_fd = tblsize - 1\<rparr>"
      "hp2' = hp2(a2 \<mapsto> Raw, a2 \<mapsto> Array descr2)"
    by (cases r2)
      (auto simp: build_frame_descriptors_def caml_stat_alloc_def
        split: option.splits sum.splits prod.splits)
  from 1(3) 2(2) have "descr1 = descr2" by simp
  with 1 2 show ?thesis by simp
qed

theorem build_frame_descriptors_deterministic_witness:
  "\<exists>fds1 hp1' fds2 hp2'.
     build_frame_descriptors example_hash example_mem Map.empty (Alloced 0x7000)
       [0x20000, 0x10000] = Some (Inr (fds1, hp1')) \<and>
     build_frame_descriptors example_hash example_mem [0x7000 \<mapsto> Raw] (Alloced 0x9000)
       [0x20000, 0x10000] = Some (Inr (fds2, hp2')) \<and>
     mask_fd fds1 = mask_fd fds2 \<and>
     (\<exists>descr. hp1' (descriptors fds1) = Some (Array descr) \<and>
              hp2' (descriptors fds2) = Some (Array descr))"
proof -
  from build_ok [OF example_counts_ok example_records_ok, of example_hash Map.empty "0x7000"]
  obtain fds1 hp1' where
    1: "build_frame_descriptors example_hash example_mem Map.empty (Alloced 0x7000)
          [0x20000, 0x10000] = Some (Inr (fds1, hp1'))" by blast
  from build_ok [OF example_counts_ok example_records_ok, of example_hash "[0x7000 \<mapsto> Raw]" "0x9000"]
  obtain fds2 hp2' where
    2: "build_frame_descriptors example_hash example_mem [0x7000 \<mapsto> Raw] (Alloced 0x9000)
          [0x20000, 0x10000] = Some (Inr (fds2, hp2'))" by blast
  from build_frame_descriptors_deterministic [OF 1 2] 1 2 show ?thesis by blast
qed

lemma get_frees_only_after_epoch:
  assumes "heap s (current_frametable s) = Some (Version v)"
    and "heap (final_state (caml_get_frame_descrs cycles s)) \<noteq> heap s"
  shows "free_prev_after_cycle v < cycles"
proof (rule ccontr)
  assume "\<not> free_prev_after_cycle v < cycles"
  with assms(1) have "final_state (caml_get_frame_descrs cycles s) = s"
    by (simp add: caml_get_frame_descrs_def final_state_def)
  with assms(2) show False by simp
qed

text \<open>
  C3.  A registration stores the counter of completed cycles it reads in the marker of
  the version it creates, whose predecessor is the version that was current.  A call of
  \<^verbatim>\<open>caml_get_frame_descrs\<close>, whether it returns or stops on an error, changes the heap
  (and so frees anything at all) only if the counter it observes is strictly greater
  than the marker of the current version.
\<close>

theorem predecessor_freed_only_after_epoch:
  "(caml_register_frametable hash m c0 tbl r_link r_ft r_tbl s = Some (Inr s1) \<longrightarrow>
      (\<exists>v. heap s1 (current_frametable s1) = Some (Version v) \<and>
           free_prev_after_cycle v = c0 \<and> prev v = current_frametable s \<and>
           (\<forall>c. heap (final_state (caml_get_frame_descrs c s1)) \<noteq> heap s1 \<longrightarrow> c0 < c))) \<and>
   (heap s2 (current_frametable s2) = Some (Version v2) \<and>
    heap (final_state (caml_get_frame_descrs c2 s2)) \<noteq> heap s2 \<longrightarrow>
      free_prev_after_cycle v2 < c2)"
proof (intro conjI impI)
  assume "caml_register_frametable hash m c0 tbl r_link r_ft r_tbl s = Some (Inr s1)"
  from register_success_shape [OF this] obtain ft a descr msk where
    s1: "s1 = \<lparr>heap = (heap s)(ft \<mapsto> Raw, a \<mapsto> Array descr,
                 ft \<mapsto> Version \<lparr>table = \<lparr>descriptors = a, mask_fd = msk\<rparr>,
                                 free_prev_after_cycle = c0,
                                 prev = current_frametable s\<rparr>),
           frametables = tbl # frametables s,
           current_frametable = ft\<rparr>" by blast
  let ?v = "\<lparr>table = \<lparr>descriptors = a, mask_fd = msk\<rparr>, free_prev_after_cycle = c0,
             prev = current_frametable s\<rparr>"
  have cur: "heap s1 (current_frametable s1) = Some (Version ?v)"
    by (simp add: s1)
  have "\<forall>c. heap (final_state (caml_get_frame_descrs c s1)) \<noteq> heap s1 \<longrightarrow> c0 < c"
    using get_frees_only_after_epoch [OF cur] by simp
  with cur show "\<exists>v. heap s1 (current_frametable s1) = Some (Version v) \<and>
           free_prev_after_cycle v = c0 \<and> prev v = current_frametable s \<and>
           (\<forall>c. heap (final_state (caml_get_frame_descrs c s1)) \<noteq> heap s1 \<longrightarrow> c0 < c)"
    by (intro exI [of _ ?v]) simp
next
  assume "heap s2 (current_frametable s2) = Some (Version v2) \<and>
    heap (final_state (caml_get_frame_descrs c2 s2)) \<noteq> heap s2"
  then show "free_prev_after_cycle v2 < c2"
    using get_frees_only_after_epoch by blast
qed

subsection \<open>The invariant of the version nodes\<close>

lemma version_inv_init:
  assumes init: "caml_init_frame_descriptors hash m caml_frametable r_links (Alloced ft) (Alloced a) s0 =
        Some (Inr s)"
    and none: "\<forall>p v. heap s0 p \<noteq> Some (Version v)"
    and fresh: "fresh_result (heap s0) (Alloced ft)" "fresh_result (heap s0) (Alloced a)" "ft \<noteq> a"
  shows "version_inv s"
proof -
  from init_success_shape [OF init] obtain descr msk fts where
    s: "s = \<lparr>heap = (heap s0)(ft \<mapsto> Raw, a \<mapsto> Array descr,
                 ft \<mapsto> Version \<lparr>table = \<lparr>descriptors = a, mask_fd = msk\<rparr>,
                                 free_prev_after_cycle = No_need_to_free,
                                 prev = 0\<rparr>),
           frametables = fts,
           current_frametable = ft\<rparr>" by auto
  from fresh have ft: "ft \<noteq> 0" by (simp add: fresh_result_def)
  show ?thesis
    unfolding version_inv_def
    using none ft fresh(3)
    by (auto simp: s marker_matches_prev_def split: if_splits)
qed

lemma version_invD:
  assumes "version_inv s"
  shows "current_frametable s \<noteq> 0"
    and "\<exists>v. heap s (current_frametable s) = Some (Version v)"
    and "\<And>p v. heap s p = Some (Version v) \<Longrightarrow> marker_matches_prev v"
    and "\<And>p v. heap s p = Some (Version v) \<Longrightarrow>
           \<exists>descr. heap s (descriptors (table v)) = Some (Array descr)"
    and "\<And>p v. heap s p = Some (Version v) \<Longrightarrow> prev v \<noteq> 0 \<Longrightarrow>
           \<exists>old. heap s (prev v) = Some (Version old)"
    and "\<And>p v. heap s p = Some (Version v) \<Longrightarrow> prev v \<noteq> 0 \<Longrightarrow>
           prev v \<noteq> current_frametable s"
    and "\<And>p q v w. heap s p = Some (Version v) \<Longrightarrow> heap s q = Some (Version w) \<Longrightarrow> p \<noteq> q \<Longrightarrow>
           descriptors (table v) \<noteq> descriptors (table w)"
    and "\<And>p q v w. heap s p = Some (Version v) \<Longrightarrow> heap s q = Some (Version w) \<Longrightarrow> p \<noteq> q \<Longrightarrow>
           prev v \<noteq> 0 \<Longrightarrow> prev v \<noteq> prev w"
    and "\<And>p v. heap s p = Some (Version v) \<Longrightarrow> prev v \<noteq> 0 \<Longrightarrow> prev v \<noteq> p"
  using assms unfolding version_inv_def by blast+

lemma version_invI:
  assumes "current_frametable s \<noteq> 0"
    and "\<exists>v. heap s (current_frametable s) = Some (Version v)"
    and "\<And>p v. heap s p = Some (Version v) \<Longrightarrow> marker_matches_prev v"
    and "\<And>p v. heap s p = Some (Version v) \<Longrightarrow>
           \<exists>descr. heap s (descriptors (table v)) = Some (Array descr)"
    and "\<And>p v. heap s p = Some (Version v) \<Longrightarrow> prev v \<noteq> 0 \<Longrightarrow>
           \<exists>old. heap s (prev v) = Some (Version old)"
    and "\<And>p v. heap s p = Some (Version v) \<Longrightarrow> prev v \<noteq> 0 \<Longrightarrow>
           prev v \<noteq> current_frametable s"
    and "\<And>p q v w. heap s p = Some (Version v) \<Longrightarrow> heap s q = Some (Version w) \<Longrightarrow> p \<noteq> q \<Longrightarrow>
           descriptors (table v) \<noteq> descriptors (table w)"
    and "\<And>p q v w. heap s p = Some (Version v) \<Longrightarrow> heap s q = Some (Version w) \<Longrightarrow> p \<noteq> q \<Longrightarrow>
           prev v \<noteq> 0 \<Longrightarrow> prev v \<noteq> prev w"
    and "\<And>p v. heap s p = Some (Version v) \<Longrightarrow> prev v \<noteq> 0 \<Longrightarrow> prev v \<noteq> p"
  shows "version_inv s"
  unfolding version_inv_def using assms by blast

lemma version_inv_register:
  assumes inv: "version_inv s"
    and reg: "caml_register_frametable hash m cycles tbl r_link (Alloced ft) (Alloced a) s = Some (Inr s')"
    and fresh: "fresh_result (heap s) (Alloced ft)" "fresh_result (heap s) (Alloced a)" "ft \<noteq> a"
    and cyc: "cycles \<noteq> No_need_to_free"
  shows "version_inv s'"
proof -
  let ?old = "current_frametable s"
  from register_success_shape [OF reg] obtain descr msk where
    old: "?old \<noteq> 0" and
    s': "s' = \<lparr>heap = (heap s)(ft \<mapsto> Raw, a \<mapsto> Array descr,
                 ft \<mapsto> Version \<lparr>table = \<lparr>descriptors = a, mask_fd = msk\<rparr>,
                                 free_prev_after_cycle = cycles,
                                 prev = ?old\<rparr>),
           frametables = tbl # frametables s,
           current_frametable = ft\<rparr>" by auto
  let ?new = "\<lparr>table = \<lparr>descriptors = a, mask_fd = msk\<rparr>, free_prev_after_cycle = cycles,
               prev = ?old\<rparr>"
  from fresh have ft: "ft \<noteq> 0" "heap s ft = None" and a: "heap s a = None"
    by (simp_all add: fresh_result_def)
  have cur: "current_frametable s' = ft" by (simp add: s')
  have at_ft: "heap s' ft = Some (Version ?new)" by (simp add: s')
  have at_a: "heap s' a = Some (Array descr)" using fresh(3) by (simp add: s')
  have other: "heap s' p = heap s p" if "p \<noteq> ft" "p \<noteq> a" for p
    using that by (simp add: s')
  have live: "heap s' p = heap s p" if "heap s p \<noteq> None" for p
    using that ft(2) a other by metis
  have cases: "(p = ft \<and> v = ?new) \<or> (p \<noteq> ft \<and> p \<noteq> a \<and> heap s p = Some (Version v))"
    if "heap s' p = Some (Version v)" for p v
    using that at_ft at_a other by (cases "p = ft"; cases "p = a") auto
  from version_invD(2) [OF inv] obtain vold where vold: "heap s ?old = Some (Version vold)" by blast
  show ?thesis
  proof (rule version_invI)
    show "current_frametable s' \<noteq> 0" using ft by (simp add: cur)
    show "\<exists>v. heap s' (current_frametable s') = Some (Version v)"
      using at_ft by (simp add: cur)
  next
    fix p v assume pv: "heap s' p = Some (Version v)"
    from cases [OF pv] show "marker_matches_prev v"
    proof
      assume "p = ft \<and> v = ?new"
      then show ?thesis using old cyc by (simp add: marker_matches_prev_def)
    next
      assume "p \<noteq> ft \<and> p \<noteq> a \<and> heap s p = Some (Version v)"
      then show ?thesis using version_invD(3) [OF inv] by blast
    qed
    from cases [OF pv] show "\<exists>descr. heap s' (descriptors (table v)) = Some (Array descr)"
    proof
      assume "p = ft \<and> v = ?new"
      then show ?thesis using at_a by simp
    next
      assume "p \<noteq> ft \<and> p \<noteq> a \<and> heap s p = Some (Version v)"
      then obtain d where "heap s (descriptors (table v)) = Some (Array d)"
        using version_invD(4) [OF inv] by blast
      then show ?thesis using live by simp
    qed
  next
    fix p v assume pv: "heap s' p = Some (Version v)" and nz: "prev v \<noteq> 0"
    from cases [OF pv] show "\<exists>old. heap s' (prev v) = Some (Version old)"
    proof
      assume "p = ft \<and> v = ?new"
      then show ?thesis using vold live by simp
    next
      assume "p \<noteq> ft \<and> p \<noteq> a \<and> heap s p = Some (Version v)"
      then obtain o' where "heap s (prev v) = Some (Version o')"
        using version_invD(5) [OF inv _ nz] by blast
      then show ?thesis using live by simp
    qed
    from cases [OF pv] show "prev v \<noteq> current_frametable s'"
    proof
      assume "p = ft \<and> v = ?new"
      then show ?thesis using vold ft(2) by (auto simp: cur)
    next
      assume "p \<noteq> ft \<and> p \<noteq> a \<and> heap s p = Some (Version v)"
      then obtain o' where "heap s (prev v) = Some (Version o')"
        using version_invD(5) [OF inv _ nz] by blast
      then show ?thesis using ft(2) by (auto simp: cur)
    qed
  next
    fix p q v w
    assume pv: "heap s' p = Some (Version v)" and qw: "heap s' q = Some (Version w)"
      and ne: "p \<noteq> q"
    have tbl_live: "heap s (descriptors (table x)) \<noteq> None" if "heap s r = Some (Version x)" for r x
      using version_invD(4) [OF inv that] by auto
    from cases [OF pv] cases [OF qw] ne
    show "descriptors (table v) \<noteq> descriptors (table w)"
    proof (elim disjE conjE)
      assume "p = ft" "q = ft"
      with ne show ?thesis by simp
    next
      assume "p = ft" "v = ?new" "heap s q = Some (Version w)"
      then show ?thesis using tbl_live [of q w] a by auto
    next
      assume "q = ft" "w = ?new" "heap s p = Some (Version v)"
      then show ?thesis using tbl_live [of p v] a by auto
    next
      assume "heap s p = Some (Version v)" "heap s q = Some (Version w)"
      then show ?thesis using version_invD(7) [OF inv _ _ ne] by blast
    qed
  next
    fix p q v w
    assume pv: "heap s' p = Some (Version v)" and qw: "heap s' q = Some (Version w)"
      and ne: "p \<noteq> q" and nz: "prev v \<noteq> 0"
    from cases [OF pv] cases [OF qw] ne
    show "prev v \<noteq> prev w"
    proof (elim disjE conjE)
      assume "p = ft" "q = ft"
      with ne show ?thesis by simp
    next
      assume "p = ft" "v = ?new" "heap s q = Some (Version w)"
      then show ?thesis using version_invD(6) [OF inv, of q w] old by auto
    next
      assume "q = ft" "w = ?new" "heap s p = Some (Version v)"
      then show ?thesis using version_invD(6) [OF inv, of p v] nz by auto
    next
      assume "heap s p = Some (Version v)" "heap s q = Some (Version w)"
      then show ?thesis using version_invD(8) [OF inv _ _ ne nz] by blast
    qed
  next
    fix p v assume pv: "heap s' p = Some (Version v)" and nz: "prev v \<noteq> 0"
    from cases [OF pv] show "prev v \<noteq> p"
    proof
      assume "p = ft \<and> v = ?new"
      then show ?thesis using vold ft(2) by auto
    next
      assume "p \<noteq> ft \<and> p \<noteq> a \<and> heap s p = Some (Version v)"
      then show ?thesis using version_invD(9) [OF inv _ nz] by blast
    qed
  qed
qed

subsection \<open>Arrays in the heap are never written again\<close>

lemma get_final_heap:
  "heap (final_state (caml_get_frame_descrs cycles s)) p = heap s p \<or>
   heap (final_state (caml_get_frame_descrs cycles s)) p = None \<or>
   (p = current_frametable s \<and>
    (\<exists>v v'. heap s p = Some (Version v) \<and>
       heap (final_state (caml_get_frame_descrs cycles s)) p = Some (Version v')))"
proof -
  let ?c = "current_frametable s"
  let ?res = "caml_get_frame_descrs cycles s"
  show ?thesis
  proof (cases "\<exists>v old. ?c \<noteq> 0 \<and> heap s ?c = Some (Version v) \<and> free_prev_after_cycle v < cycles \<and>
      prev v \<noteq> 0 \<and> heap s (prev v) = Some (Version old)")
    case False
    then have "final_state ?res = s"
      by (auto simp: caml_get_frame_descrs_def final_state_def split: option.split obj.split)
    then show ?thesis by simp
  next
    case True
    then obtain v old where c0: "?c \<noteq> 0" and cur: "heap s ?c = Some (Version v)"
      and lt: "free_prev_after_cycle v < cycles" and nz: "prev v \<noteq> 0"
      and old: "heap s (prev v) = Some (Version old)" by blast
    let ?ta = "descriptors (table old)"
    have unfold: "?res =
        (case caml_stat_free (heap s) ?ta of
           Inl e \<Rightarrow> Inl (e, s)
         | Inr hp1 \<Rightarrow>
             (case caml_stat_free hp1 (prev v) of
                Inl e \<Rightarrow> Inl (e, s\<lparr>heap := hp1\<rparr>)
              | Inr hp2 \<Rightarrow>
                  (case hp2 ?c of
                     Some (Version ft') \<Rightarrow>
                       Inr (table ft',
                            s\<lparr>heap := hp2(?c \<mapsto> Version
                                 (ft'\<lparr>prev := 0, free_prev_after_cycle := No_need_to_free\<rparr>))\<rparr>)
                   | _ \<Rightarrow> Inl (Invalid_pointer, s\<lparr>heap := hp2\<rparr>))))"
      unfolding caml_get_frame_descrs_def
      by (simp only: c0 cur lt nz old if_True if_False not_False_eq_True option.case obj.case)
    have free_shape: "hp' q = hp q \<or> hp' q = None" if "caml_stat_free hp x = Inr hp'"
      for hp hp' :: heap and x q
      using that by (auto simp: caml_stat_free_def split: if_splits)
    show ?thesis
    proof (cases "caml_stat_free (heap s) ?ta")
      case (Inl e)
      then have "final_state ?res = s"
        by (simp add: unfold final_state_def)
      then show ?thesis by simp
    next
      case f1: (Inr hp1)
      have 1: "hp1 p = heap s p \<or> hp1 p = None" using free_shape [OF f1] .
      show ?thesis
      proof (cases "caml_stat_free hp1 (prev v)")
        case (Inl e)
        then have "final_state ?res = s\<lparr>heap := hp1\<rparr>"
          by (simp add: unfold f1 final_state_def)
        then show ?thesis using 1 by auto
      next
        case f2: (Inr hp2)
        have 2: "hp2 p = hp1 p \<or> hp2 p = None" using free_shape [OF f2] .
        show ?thesis
        proof (cases "\<exists>ft'. hp2 ?c = Some (Version ft')")
          case False
          then have "final_state ?res = s\<lparr>heap := hp2\<rparr>"
            by (auto simp: unfold f1 f2 final_state_def split: option.split obj.split)
          then have "heap (final_state ?res) p = hp2 p" by simp
          then show ?thesis using 1 2 by auto
        next
          case True
          then obtain ft' where ft': "hp2 ?c = Some (Version ft')" by blast
          let ?v' = "ft'\<lparr>prev := 0, free_prev_after_cycle := No_need_to_free\<rparr>"
          have "final_state ?res = s\<lparr>heap := hp2(?c \<mapsto> Version ?v')\<rparr>"
            by (simp add: unfold f1 f2 ft' final_state_def)
          then have "heap (final_state ?res) p = (hp2(?c \<mapsto> Version ?v')) p" by simp
          then show ?thesis using cur 1 2 by (cases "p = ?c") auto
        qed
      qed
    qed
  qed
qed

text \<open>
  C7.  No operation changes the contents of an array of record pointers that is in the
  heap.  A registration (and likewise the initialization) whose blocks are fresh leaves
  every array of the heap as it is, and the array of the version it publishes is a
  block that was not in the heap before.  \<^verbatim>\<open>caml_get_frame_descrs\<close>, however it ends,
  leaves each array as it is or frees it.  (\<^verbatim>\<open>caml_find_frame_descr\<close> has no effect on
  the state at all.)
\<close>

theorem published_tables_never_mutated:
  "(caml_register_frametable hash m cycles tbl r_link r_ft r_tbl s = Some (Inr s') \<and>
    fresh_result (heap s) r_ft \<and> fresh_result (heap s) r_tbl \<and> r_ft \<noteq> r_tbl \<longrightarrow>
      (\<forall>p descr. heap s p = Some (Array descr) \<longrightarrow> heap s' p = Some (Array descr)) \<and>
      (\<exists>v descr. heap s' (current_frametable s') = Some (Version v) \<and>
         heap s (descriptors (table v)) = None \<and>
         heap s' (descriptors (table v)) = Some (Array descr))) \<and>
   (caml_init_frame_descriptors hash m caml_frametable r_links r_ft r_tbl s = Some (Inr s') \<and>
    fresh_result (heap s) r_ft \<and> fresh_result (heap s) r_tbl \<and> r_ft \<noteq> r_tbl \<longrightarrow>
      (\<forall>p descr. heap s p = Some (Array descr) \<longrightarrow> heap s' p = Some (Array descr)) \<and>
      (\<exists>v descr. heap s' (current_frametable s') = Some (Version v) \<and>
         heap s (descriptors (table v)) = None \<and>
         heap s' (descriptors (table v)) = Some (Array descr))) \<and>
   (\<forall>p descr. heap s p = Some (Array descr) \<longrightarrow>
      heap (final_state (caml_get_frame_descrs cycles s)) p = Some (Array descr) \<or>
      heap (final_state (caml_get_frame_descrs cycles s)) p = None)"
proof (intro conjI impI)
  assume "caml_register_frametable hash m cycles tbl r_link r_ft r_tbl s = Some (Inr s') \<and>
    fresh_result (heap s) r_ft \<and> fresh_result (heap s) r_tbl \<and> r_ft \<noteq> r_tbl"
  then have reg: "caml_register_frametable hash m cycles tbl r_link r_ft r_tbl s = Some (Inr s')"
    and fresh: "fresh_result (heap s) r_ft" "fresh_result (heap s) r_tbl" "r_ft \<noteq> r_tbl"
    by simp_all
  from register_success_shape [OF reg] obtain ft a descr msk where
    r: "r_ft = Alloced ft" "r_tbl = Alloced a" and
    s': "s' = \<lparr>heap = (heap s)(ft \<mapsto> Raw, a \<mapsto> Array descr,
                 ft \<mapsto> Version \<lparr>table = \<lparr>descriptors = a, mask_fd = msk\<rparr>,
                                 free_prev_after_cycle = cycles,
                                 prev = current_frametable s\<rparr>),
           frametables = tbl # frametables s,
           current_frametable = ft\<rparr>" by blast
  from fresh r have f: "heap s ft = None" "heap s a = None" "ft \<noteq> a"
    by (simp_all add: fresh_result_def)
  show "\<forall>p descr. heap s p = Some (Array descr) \<longrightarrow> heap s' p = Some (Array descr)"
    using f by (auto simp: s')
  show "\<exists>v descr. heap s' (current_frametable s') = Some (Version v) \<and>
         heap s (descriptors (table v)) = None \<and>
         heap s' (descriptors (table v)) = Some (Array descr)"
    using f by (simp add: s')
next
  assume "caml_init_frame_descriptors hash m caml_frametable r_links r_ft r_tbl s = Some (Inr s') \<and>
    fresh_result (heap s) r_ft \<and> fresh_result (heap s) r_tbl \<and> r_ft \<noteq> r_tbl"
  then have init: "caml_init_frame_descriptors hash m caml_frametable r_links r_ft r_tbl s = Some (Inr s')"
    and fresh: "fresh_result (heap s) r_ft" "fresh_result (heap s) r_tbl" "r_ft \<noteq> r_tbl"
    by simp_all
  from init_success_shape [OF init] obtain ft a descr msk fts where
    r: "r_ft = Alloced ft" "r_tbl = Alloced a" and
    s': "s' = \<lparr>heap = (heap s)(ft \<mapsto> Raw, a \<mapsto> Array descr,
                 ft \<mapsto> Version \<lparr>table = \<lparr>descriptors = a, mask_fd = msk\<rparr>,
                                 free_prev_after_cycle = No_need_to_free,
                                 prev = 0\<rparr>),
           frametables = fts,
           current_frametable = ft\<rparr>" by blast
  from fresh r have f: "heap s ft = None" "heap s a = None" "ft \<noteq> a"
    by (simp_all add: fresh_result_def)
  show "\<forall>p descr. heap s p = Some (Array descr) \<longrightarrow> heap s' p = Some (Array descr)"
    using f by (auto simp: s')
  show "\<exists>v descr. heap s' (current_frametable s') = Some (Version v) \<and>
         heap s (descriptors (table v)) = None \<and>
         heap s' (descriptors (table v)) = Some (Array descr)"
    using f by (simp add: s')
next
  show "\<forall>p descr. heap s p = Some (Array descr) \<longrightarrow>
      heap (final_state (caml_get_frame_descrs cycles s)) p = Some (Array descr) \<or>
      heap (final_state (caml_get_frame_descrs cycles s)) p = None"
  proof (intro allI impI)
    fix p descr assume arr: "heap s p = Some (Array descr)"
    from get_final_heap [of cycles s p] arr
    show "heap (final_state (caml_get_frame_descrs cycles s)) p = Some (Array descr) \<or>
      heap (final_state (caml_get_frame_descrs cycles s)) p = None"
      by auto
  qed
qed

subsection \<open>The example, built\<close>

lemma example_hashes:
  "Hash_retaddr example_hash 0x401000 7 = 0" "Hash_retaddr example_hash 0x401040 7 = 0"
  "Hash_retaddr example_hash 0x401080 7 = 0" "Hash_retaddr example_hash 0x402000 7 = 0"
  by (simp_all add: Hash_retaddr_def example_hash_def)

lemma example_retaddrs:
  "retaddr example_mem 0x10008 = 0x401000" "retaddr example_mem 0x10018 = 0x401040"
  "retaddr example_mem 0x10028 = 0x401080" "retaddr example_mem 0x20008 = 0x402000"
  by (simp_all add: retaddr_def example_mem_def)

lemma example_next_frame_descr:
  "next_frame_descr example_mem 0x10008 = Inr 0x10018"
  "next_frame_descr example_mem 0x10018 = Inr 0x10028"
  "\<exists>d. next_frame_descr example_mem 0x10028 = Inr d"
  by (simp_all add: next_frame_descr_def example_retaddrs example_next_1 example_next_2)

lemma example_probe_1: "probe_free [0, 0, 0, 0, 0, 0, 0, 0] 7 0 = Some (Inr 0)"
  by (subst probe_free.simps) simp

lemma example_probe_2: "probe_free [0x10008, 0, 0, 0, 0, 0, 0, 0] 7 0 = Some (Inr 1)"
  by (subst probe_free.simps, simp, subst probe_free.simps, simp)

lemma example_probe_3: "probe_free [0x10008, 0x10018, 0, 0, 0, 0, 0, 0] 7 0 = Some (Inr 2)"
  by (subst probe_free.simps, simp, subst probe_free.simps, simp, subst probe_free.simps, simp)

lemma example_fill_1:
  "fill_tables example_hash example_mem 8 7 [0x10000] [0, 0, 0, 0, 0, 0, 0, 0] =
     Some (Inr [0x10008, 0x10018, 0x10028, 0, 0, 0, 0, 0])"
proof -
  have n: "nat (sint (load_word example_mem 0x10000)) = Suc (Suc (Suc 0))"
    by (simp add: example_mem_def)
  obtain d where d: "next_frame_descr example_mem 0x10028 = Inr d"
    using example_next_frame_descr(3) by blast
  show ?thesis
    by (simp add: n example_retaddrs example_hashes example_probe_1 example_probe_2
        example_probe_3 example_next_frame_descr(1,2) d)
qed

lemma example_build_1:
  "build_frame_descriptors example_hash example_mem hp (Alloced a) [0x10000] =
     Some (Inr (\<lparr>descriptors = a, mask_fd = 7\<rparr>,
                hp(a \<mapsto> Array [0x10008, 0x10018, 0x10028, 0, 0, 0, 0, 0])))"
proof -
  have r: "replicate (nat (sint (8 :: 64 word))) (0 :: addr) = [0, 0, 0, 0, 0, 0, 0, 0]"
    by (simp add: numeral_eq_Suc)
  have m: "(8 :: 64 word) - 1 = 7" by simp
  have f: "fill_tables example_hash example_mem 8 7 [0x10000]
      (replicate (nat (sint (8 :: 64 word))) 0) =
      Some (Inr [0x10008, 0x10018, 0x10028, 0, 0, 0, 0, 0])"
    unfolding r by (rule example_fill_1)
  show ?thesis
    unfolding build_frame_descriptors_def example_tblsize_8
    by (simp only: f caml_stat_alloc_def option.case sum.case alloc_result.case prod.case m
        fun_upd_upd)
qed

subsection \<open>The example run\<close>

lemma example_count_4: "count_descrs example_mem [0x20000, 0x10000] 0 = 4"
  by (simp add: example_mem_def)

lemma example_tblsize_8': "grow_tblsize 4 (count_descrs example_mem [0x20000, 0x10000] 0) = Some 8"
  unfolding example_count_4
  by (simp add: grow_tblsize.simps)

lemma example_probe_4: "probe_free [0x20008, 0, 0, 0, 0, 0, 0, 0] 7 0 = Some (Inr 1)"
  by (subst probe_free.simps, simp, subst probe_free.simps, simp)

lemma example_probe_5: "probe_free [0x20008, 0x10008, 0, 0, 0, 0, 0, 0] 7 0 = Some (Inr 2)"
  by (subst probe_free.simps, simp, subst probe_free.simps, simp, subst probe_free.simps, simp)

lemma example_probe_6: "probe_free [0x20008, 0x10008, 0x10018, 0, 0, 0, 0, 0] 7 0 = Some (Inr 3)"
  by (subst probe_free.simps, simp, subst probe_free.simps, simp, subst probe_free.simps, simp,
      subst probe_free.simps, simp)

lemma example_fill_2:
  "fill_tables example_hash example_mem 8 7 [0x20000, 0x10000] [0, 0, 0, 0, 0, 0, 0, 0] =
     Some (Inr [0x20008, 0x10008, 0x10018, 0x10028, 0, 0, 0, 0])"
proof -
  have n: "nat (sint (load_word example_mem 0x10000)) = Suc (Suc (Suc 0))"
    "nat (sint (load_word example_mem 0x20000)) = Suc 0"
    by (simp_all add: example_mem_def)
  obtain d where d: "next_frame_descr example_mem 0x10028 = Inr d"
    using example_next_frame_descr(3) by blast
  have d': "next_frame_descr example_mem 0x20008 = Inr (next_frame_descr_ptr example_mem 0x20008)"
    by (simp add: next_frame_descr_def example_retaddrs)
  show ?thesis
    by (simp add: n example_retaddrs example_hashes example_probe_1 example_probe_4
        example_probe_5 example_probe_6 example_next_frame_descr(1,2) d d')
qed

lemma example_build_2:
  "build_frame_descriptors example_hash example_mem hp (Alloced a) [0x20000, 0x10000] =
     Some (Inr (\<lparr>descriptors = a, mask_fd = 7\<rparr>,
                hp(a \<mapsto> Array [0x20008, 0x10008, 0x10018, 0x10028, 0, 0, 0, 0])))"
proof -
  have r: "replicate (nat (sint (8 :: 64 word))) (0 :: addr) = [0, 0, 0, 0, 0, 0, 0, 0]"
    by (simp add: numeral_eq_Suc)
  have m: "(8 :: 64 word) - 1 = 7" by simp
  have f: "fill_tables example_hash example_mem 8 7 [0x20000, 0x10000]
      (replicate (nat (sint (8 :: 64 word))) 0) =
      Some (Inr [0x20008, 0x10008, 0x10018, 0x10028, 0, 0, 0, 0])"
    unfolding r by (rule example_fill_2)
  show ?thesis
    unfolding build_frame_descriptors_def example_tblsize_8'
    by (simp only: f caml_stat_alloc_def option.case sum.case alloc_result.case prod.case m
        fun_upd_upd)
qed

lemma example_init:
  "caml_init_frame_descriptors example_hash example_mem [0x10000, 0] (\<lambda>i. Alloced 0x6000)
     (Alloced 0x8000) (Alloced 0x7000) example_s0 = Some (Inr example_s1)"
proof -
  have l: "init_loop (\<lambda>i. Alloced 0x6000) 0 [0x10000, 0] (frametables example_s0) = Inr [0x10000]"
    by (simp add: cons_def example_s0_def)
  show ?thesis
    unfolding caml_init_frame_descriptors_def l
    by (simp add: caml_stat_alloc_def example_build_1 example_s0_def example_s1_def
        example_v1_def)
qed

lemma example_register:
  "caml_register_frametable example_hash example_mem 5 0x20000 (Alloced 0x6100)
     (Alloced 0x8100) (Alloced 0x7100) example_s1 = Some (Inr example_s2)"
proof -
  have c: "cons (Alloced 0x6100) 0x20000 (frametables example_s1) = Inr [0x20000, 0x10000]"
    by (simp add: cons_def example_s1_def)
  have cur: "current_frametable example_s1 \<noteq> 0" by (simp add: example_s1_def)
  show ?thesis
    unfolding caml_register_frametable_def c
    by (simp add: cur caml_stat_alloc_def example_build_2 example_s2_def example_v2_def)
      (simp add: example_s1_def)
qed

lemma example_get_frees:
  "caml_get_frame_descrs 6 example_s2 = Inr (\<lparr>descriptors = 0x7100, mask_fd = 7\<rparr>, example_s3)"
  unfolding caml_get_frame_descrs_def
  by (simp add: example_s2_def example_s1_def example_s3_def example_v2_def example_v1_def
      caml_stat_free_def No_need_to_free_def)

lemma example_get_keeps:
  "caml_get_frame_descrs 5 example_s2 = Inr (\<lparr>descriptors = 0x7100, mask_fd = 7\<rparr>, example_s2)"
  unfolding caml_get_frame_descrs_def
  by (simp add: example_s2_def example_s1_def example_v2_def)

lemma example_heap_changed: "heap example_s3 \<noteq> heap example_s2"
proof
  assume "heap example_s3 = heap example_s2"
  then have "heap example_s3 0x8000 = heap example_s2 0x8000" by simp
  then show False
    by (simp add: example_s3_def example_s2_def example_s1_def)
qed

subsection \<open>The example run as a witness\<close>

theorem predecessor_freed_only_after_epoch_witness:
  "caml_register_frametable example_hash example_mem 5 0x20000 (Alloced 0x6100)
     (Alloced 0x8100) (Alloced 0x7100) example_s1 = Some (Inr example_s2) \<and>
   heap example_s2 (current_frametable example_s2) = Some (Version example_v2) \<and>
   free_prev_after_cycle example_v2 = 5 \<and>
   prev example_v2 = current_frametable example_s1 \<and>
   heap (final_state (caml_get_frame_descrs 6 example_s2)) \<noteq> heap example_s2 \<and>
   free_prev_after_cycle example_v2 < 6 \<and>
   heap (final_state (caml_get_frame_descrs 5 example_s2)) = heap example_s2"
proof -
  have cur: "heap example_s2 (current_frametable example_s2) = Some (Version example_v2)"
    by (simp add: example_s2_def)
  have v: "free_prev_after_cycle example_v2 = 5" "prev example_v2 = current_frametable example_s1"
    by (simp_all add: example_v2_def example_s1_def)
  have changed: "heap (final_state (caml_get_frame_descrs 6 example_s2)) \<noteq> heap example_s2"
    using example_heap_changed by (simp add: example_get_frees final_state_def)
  have kept: "heap (final_state (caml_get_frame_descrs 5 example_s2)) = heap example_s2"
    by (simp add: example_get_keeps final_state_def)
  from predecessor_freed_only_after_epoch
    [of example_hash example_mem 5 "0x20000" "Alloced 0x6100" "Alloced 0x8100" "Alloced 0x7100"
      example_s1 example_s2 example_s2 example_v2 6]
    cur changed
  have "free_prev_after_cycle example_v2 < 6" by blast
  with example_register cur v changed kept show ?thesis by blast
qed

theorem published_tables_never_mutated_witness:
  "caml_register_frametable example_hash example_mem 5 0x20000 (Alloced 0x6100)
     (Alloced 0x8100) (Alloced 0x7100) example_s1 = Some (Inr example_s2) \<and>
   fresh_result (heap example_s1) (Alloced 0x8100) \<and>
   fresh_result (heap example_s1) (Alloced 0x7100) \<and>
   heap example_s1 0x7000 = Some (Array [0x10008, 0x10018, 0x10028, 0, 0, 0, 0, 0]) \<and>
   heap example_s2 0x7000 = Some (Array [0x10008, 0x10018, 0x10028, 0, 0, 0, 0, 0]) \<and>
   heap example_s1 0x7100 = None \<and>
   heap example_s2 0x7100 = Some (Array [0x20008, 0x10008, 0x10018, 0x10028, 0, 0, 0, 0]) \<and>
   heap (final_state (caml_get_frame_descrs 6 example_s2)) 0x7000 = None \<and>
   heap (final_state (caml_get_frame_descrs 6 example_s2)) 0x7100 =
     Some (Array [0x20008, 0x10008, 0x10018, 0x10028, 0, 0, 0, 0])"
proof -
  have fresh: "fresh_result (heap example_s1) (Alloced 0x8100)"
    "fresh_result (heap example_s1) (Alloced 0x7100)"
    by (simp_all add: fresh_result_def example_s1_def)
  have ne: "Alloced (0x8100 :: addr) \<noteq> Alloced 0x7100" by simp
  have old: "heap example_s1 0x7000 = Some (Array [0x10008, 0x10018, 0x10028, 0, 0, 0, 0, 0])"
    "heap example_s1 0x7100 = None"
    by (simp_all add: example_s1_def)
  have new: "heap example_s2 0x7100 = Some (Array [0x20008, 0x10008, 0x10018, 0x10028, 0, 0, 0, 0])"
    by (simp add: example_s2_def)
  have after: "heap (final_state (caml_get_frame_descrs 6 example_s2)) 0x7000 = None"
    "heap (final_state (caml_get_frame_descrs 6 example_s2)) 0x7100 =
       Some (Array [0x20008, 0x10008, 0x10018, 0x10028, 0, 0, 0, 0])"
    unfolding example_get_frees final_state_def
    by (simp_all add: example_s3_def example_s2_def)
  from published_tables_never_mutated
    [of example_hash example_mem 5 "0x20000" "Alloced 0x6100" "Alloced 0x8100" "Alloced 0x7100"
      example_s1 example_s2]
    example_register fresh ne
  have "\<forall>p descr. heap example_s1 p = Some (Array descr) \<longrightarrow>
      heap example_s2 p = Some (Array descr)" by blast
  with old(1) have "heap example_s2 0x7000 = Some (Array [0x10008, 0x10018, 0x10028, 0, 0, 0, 0, 0])"
    by blast
  with example_register fresh old new after show ?thesis by blast
qed

subsection \<open>Calls that stop on an error\<close>

lemma init_loop_allocs:
  "init_loop r_links i tbls fts = Inr fts' \<Longrightarrow>
     \<forall>k < length (takeWhile (\<lambda>t. t \<noteq> 0) tbls). r_links (i + k) \<noteq> Alloc_failed"
proof (induction tbls arbitrary: i fts)
  case Nil
  then show ?case by simp
next
  case (Cons t ts)
  show ?case
  proof (cases "t = 0")
    case True
    then show ?thesis by simp
  next
    case False
    with Cons.prems obtain lnk where here: "r_links i = Alloced lnk"
      and rest: "init_loop r_links (Suc i) ts (t # fts) = Inr fts'"
      by (cases "r_links i") (auto simp: cons_def)
    from Cons.IH [OF rest]
    have IH: "\<forall>k < length (takeWhile (\<lambda>t. t \<noteq> 0) ts). r_links (Suc i + k) \<noteq> Alloc_failed" .
    show ?thesis
    proof (intro allI impI)
      fix k assume k: "k < length (takeWhile (\<lambda>t. t \<noteq> 0) (t # ts))"
      show "r_links (i + k) \<noteq> Alloc_failed"
      proof (cases k)
        case 0
        with here show ?thesis by simp
      next
        case (Suc k')
        with k False have "k' < length (takeWhile (\<lambda>t. t \<noteq> 0) ts)" by simp
        with IH have "r_links (Suc i + k') \<noteq> Alloc_failed" by blast
        with Suc show ?thesis by simp
      qed
    qed
  qed
qed

lemma register_error_shape:
  assumes "caml_register_frametable hash m cycles tbl r_link r_ft r_tbl s = Some (Inl (e, s_err))"
  shows "current_frametable s_err = current_frametable s \<and>
     (heap s_err = heap s \<or>
      (\<exists>ft. r_ft = Alloced ft \<and>
         (heap s_err = (heap s)(ft \<mapsto> Raw) \<or>
          (\<exists>a descr. r_tbl = Alloced a \<and> heap s_err = (heap s)(ft \<mapsto> Raw, a \<mapsto> Array descr)))))"
proof (cases "\<exists>lnk ft. r_link = Alloced lnk \<and> current_frametable s \<noteq> 0 \<and> r_ft = Alloced ft")
  case False
  with assms have "s_err = s \<or> s_err = s\<lparr>frametables := tbl # frametables s\<rparr>"
    by (cases r_link; cases r_ft)
      (auto simp: caml_register_frametable_def cons_def caml_stat_alloc_def split: if_splits)
  then show ?thesis by auto
next
  case True
  then obtain lnk ft where l: "r_link = Alloced lnk" and c: "current_frametable s \<noteq> 0"
    and f: "r_ft = Alloced ft" by blast
  from assms l c f obtain hp2 where
    b: "build_frame_descriptors hash m ((heap s)(ft \<mapsto> Raw)) r_tbl (tbl # frametables s) =
          Some (Inl (e, hp2))" and
    s_err: "s_err = s\<lparr>heap := hp2, frametables := tbl # frametables s\<rparr>"
    by (auto simp: caml_register_frametable_def cons_def caml_stat_alloc_def
        split: option.splits sum.splits prod.splits)
  from build_error_shape [OF b] f s_err show ?thesis by auto
qed

lemma init_error_shape:
  assumes "caml_init_frame_descriptors hash m caml_frametable r_links r_ft r_tbl s =
      Some (Inl (e, s_err))"
  shows "current_frametable s_err = current_frametable s \<and>
     (heap s_err = heap s \<or>
      (\<exists>ft. r_ft = Alloced ft \<and>
         (heap s_err = (heap s)(ft \<mapsto> Raw) \<or>
          (\<exists>a descr. r_tbl = Alloced a \<and> heap s_err = (heap s)(ft \<mapsto> Raw, a \<mapsto> Array descr)))))"
proof (cases "\<exists>fts ft. init_loop r_links 0 caml_frametable (frametables s) = Inr fts \<and>
    r_ft = Alloced ft")
  case False
  with assms have "\<exists>fts. s_err = s\<lparr>frametables := fts\<rparr>"
    by (cases r_ft)
      (auto simp: caml_init_frame_descriptors_def caml_stat_alloc_def
        split: sum.splits prod.splits)
  then show ?thesis by auto
next
  case True
  then obtain fts ft where l: "init_loop r_links 0 caml_frametable (frametables s) = Inr fts"
    and f: "r_ft = Alloced ft" by blast
  from assms l f obtain hp2 where
    b: "build_frame_descriptors hash m ((heap s)(ft \<mapsto> Raw)) r_tbl fts = Some (Inl (e, hp2))" and
    s_err: "s_err = s\<lparr>heap := hp2, frametables := fts\<rparr>"
    by (auto simp: caml_init_frame_descriptors_def caml_stat_alloc_def
        split: option.splits sum.splits prod.splits)
  from build_error_shape [OF b] f s_err show ?thesis by auto
qed

lemma error_heap_keeps_live_blocks:
  assumes shape: "heap s_err = heap s \<or>
      (\<exists>ft. r_ft = Alloced ft \<and>
         (heap s_err = (heap s)(ft \<mapsto> Raw) \<or>
          (\<exists>a descr. r_tbl = Alloced a \<and> heap s_err = (heap s)(ft \<mapsto> Raw, a \<mapsto> Array descr))))"
    and fresh: "fresh_result (heap s) r_ft" "fresh_result (heap s) r_tbl"
    and live: "heap s p \<noteq> None"
  shows "heap s_err p = heap s p"
  using assms by (auto simp: fresh_result_def)

lemma register_publishes_built_table:
  assumes ok: "caml_register_frametable hash m cycles tbl r_link r_ft r_tbl s = Some (Inr s')"
    and ne: "r_ft \<noteq> r_tbl"
  shows "\<exists>ft fds hp2 v.
     r_ft = Alloced ft \<and>
     build_frame_descriptors hash m ((heap s)(ft \<mapsto> Raw)) r_tbl (tbl # frametables s) =
       Some (Inr (fds, hp2)) \<and>
     heap s' (current_frametable s') = Some (Version v) \<and> table v = fds \<and>
     heap s' (descriptors fds) = hp2 (descriptors fds)"
proof -
  from register_success_shape [OF ok] obtain lnk ft where
    l: "r_link = Alloced lnk" and c: "current_frametable s \<noteq> 0" and f: "r_ft = Alloced ft"
    by blast
  from ok l c f obtain fds hp2 where
    b: "build_frame_descriptors hash m ((heap s)(ft \<mapsto> Raw)) r_tbl (tbl # frametables s) =
          Some (Inr (fds, hp2))" and
    s': "s' = \<lparr>heap = hp2(ft \<mapsto> Version \<lparr>table = fds, free_prev_after_cycle = cycles,
                                         prev = current_frametable s\<rparr>),
              frametables = tbl # frametables s, current_frametable = ft\<rparr>"
    by (auto simp: caml_register_frametable_def cons_def caml_stat_alloc_def
        split: option.splits sum.splits prod.splits)
  from build_success_shape [OF b] f ne have "descriptors fds \<noteq> ft" by auto
  with f b s' show ?thesis by simp
qed

lemma init_publishes_built_table:
  assumes ok: "caml_init_frame_descriptors hash m caml_frametable r_links r_ft r_tbl s = Some (Inr s')"
    and ne: "r_ft \<noteq> r_tbl"
  shows "\<exists>ft fds hp2 v.
     r_ft = Alloced ft \<and>
     build_frame_descriptors hash m ((heap s)(ft \<mapsto> Raw)) r_tbl (frametables s') =
       Some (Inr (fds, hp2)) \<and>
     heap s' (current_frametable s') = Some (Version v) \<and> table v = fds \<and>
     heap s' (descriptors fds) = hp2 (descriptors fds)"
proof -
  from ok obtain fts where
    l: "init_loop r_links 0 caml_frametable (frametables s) = Inr fts"
    by (auto simp: caml_init_frame_descriptors_def split: sum.splits prod.splits)
  from ok l obtain ft where f: "r_ft = Alloced ft"
    by (cases r_ft) (auto simp: caml_init_frame_descriptors_def caml_stat_alloc_def)
  from ok l f obtain fds hp2 where
    b: "build_frame_descriptors hash m ((heap s)(ft \<mapsto> Raw)) r_tbl fts = Some (Inr (fds, hp2))" and
    s': "s' = \<lparr>heap = hp2(ft \<mapsto> Version \<lparr>table = fds, free_prev_after_cycle = No_need_to_free,
                                         prev = 0\<rparr>),
              frametables = fts, current_frametable = ft\<rparr>"
    by (auto simp: caml_init_frame_descriptors_def caml_stat_alloc_def
        split: option.splits sum.splits prod.splits)
  from build_success_shape [OF b] f ne have "descriptors fds \<noteq> ft" by auto
  with f b s' show ?thesis by simp
qed

subsection \<open>Allocation failures\<close>

text \<open>
  C8.  A registration or an initialization in which an allocation fails does not
  return: it stops with an error (for a registration, \<open>Out_of_memory\<close> at the
  allocation that failed) and publishes nothing.  Whenever one of them stops on
  an error, with fresh blocks from the allocations that did succeed, the current
  pointer is the one from before the call and every block that was live before the call
  is unchanged, so the version that was current is still current and intact.  When
  one of them does return, the version it has made current holds the table that
  \<^verbatim>\<open>build_frame_descriptors\<close> returned, with its array as the build left it.
\<close>

theorem allocation_failure_publishes_nothing:
  "(r_link = Alloc_failed \<or> r_ft = Alloc_failed \<or> r_tbl = Alloc_failed \<longrightarrow>
      caml_register_frametable hash m cycles tbl r_link r_ft r_tbl s \<noteq> Some (Inr s')) \<and>
   (r_link = Alloc_failed \<longrightarrow>
      caml_register_frametable hash m cycles tbl r_link r_ft r_tbl s =
        Some (Inl (Out_of_memory, s))) \<and>
   (r_link \<noteq> Alloc_failed \<and> current_frametable s \<noteq> 0 \<and> r_ft = Alloc_failed \<longrightarrow>
      caml_register_frametable hash m cycles tbl r_link r_ft r_tbl s =
        Some (Inl (Out_of_memory, s\<lparr>frametables := tbl # frametables s\<rparr>))) \<and>
   (r_link \<noteq> Alloc_failed \<and> current_frametable s \<noteq> 0 \<and> r_ft = Alloced ft \<and>
    r_tbl = Alloc_failed \<and>
    grow_tblsize 4 (count_descrs m (tbl # frametables s) 0) \<noteq> None \<longrightarrow>
      caml_register_frametable hash m cycles tbl r_link r_ft r_tbl s =
        Some (Inl (Out_of_memory,
                   s\<lparr>heap := (heap s)(ft \<mapsto> Raw), frametables := tbl # frametables s\<rparr>))) \<and>
   (caml_register_frametable hash m cycles tbl r_link r_ft r_tbl s = Some (Inl (e, s_err)) \<and>
    fresh_result (heap s) r_ft \<and> fresh_result (heap s) r_tbl \<longrightarrow>
      current_frametable s_err = current_frametable s \<and>
      (\<forall>p. heap s p \<noteq> None \<longrightarrow> heap s_err p = heap s p)) \<and>
   ((\<exists>k < length (takeWhile (\<lambda>t. t \<noteq> 0) caml_frametable). r_links k = Alloc_failed) \<or>
    r_ft = Alloc_failed \<or> r_tbl = Alloc_failed \<longrightarrow>
      caml_init_frame_descriptors hash m caml_frametable r_links r_ft r_tbl s \<noteq> Some (Inr s')) \<and>
   (caml_init_frame_descriptors hash m caml_frametable r_links r_ft r_tbl s =
      Some (Inl (e, s_err)) \<and>
    fresh_result (heap s) r_ft \<and> fresh_result (heap s) r_tbl \<longrightarrow>
      current_frametable s_err = current_frametable s \<and>
      (\<forall>p. heap s p \<noteq> None \<longrightarrow> heap s_err p = heap s p)) \<and>
   (caml_register_frametable hash m cycles tbl r_link r_ft r_tbl s = Some (Inr s') \<and>
    r_ft \<noteq> r_tbl \<longrightarrow>
      (\<exists>ft fds hp2 v.
         r_ft = Alloced ft \<and>
         build_frame_descriptors hash m ((heap s)(ft \<mapsto> Raw)) r_tbl (tbl # frametables s) =
           Some (Inr (fds, hp2)) \<and>
         heap s' (current_frametable s') = Some (Version v) \<and> table v = fds \<and>
         heap s' (descriptors fds) = hp2 (descriptors fds))) \<and>
   (caml_init_frame_descriptors hash m caml_frametable r_links r_ft r_tbl s = Some (Inr s') \<and>
    r_ft \<noteq> r_tbl \<longrightarrow>
      (\<exists>ft fds hp2 v.
         r_ft = Alloced ft \<and>
         build_frame_descriptors hash m ((heap s)(ft \<mapsto> Raw)) r_tbl (frametables s') =
           Some (Inr (fds, hp2)) \<and>
         heap s' (current_frametable s') = Some (Version v) \<and> table v = fds \<and>
         heap s' (descriptors fds) = hp2 (descriptors fds)))"
proof (intro conjI impI)
  assume fail: "r_link = Alloc_failed \<or> r_ft = Alloc_failed \<or> r_tbl = Alloc_failed"
  show "caml_register_frametable hash m cycles tbl r_link r_ft r_tbl s \<noteq> Some (Inr s')"
  proof
    assume "caml_register_frametable hash m cycles tbl r_link r_ft r_tbl s = Some (Inr s')"
    from register_success_shape [OF this] fail show False by auto
  qed
next
  assume "r_link = Alloc_failed"
  then show "caml_register_frametable hash m cycles tbl r_link r_ft r_tbl s =
        Some (Inl (Out_of_memory, s))"
    by (simp add: caml_register_frametable_def cons_def)
next
  assume "r_link \<noteq> Alloc_failed \<and> current_frametable s \<noteq> 0 \<and> r_ft = Alloc_failed"
  then show "caml_register_frametable hash m cycles tbl r_link r_ft r_tbl s =
        Some (Inl (Out_of_memory, s\<lparr>frametables := tbl # frametables s\<rparr>))"
    by (cases r_link) (simp_all add: caml_register_frametable_def cons_def caml_stat_alloc_def)
next
  assume a: "r_link \<noteq> Alloc_failed \<and> current_frametable s \<noteq> 0 \<and> r_ft = Alloced ft \<and>
    r_tbl = Alloc_failed \<and>
    grow_tblsize 4 (count_descrs m (tbl # frametables s) 0) \<noteq> None"
  then obtain ts where "grow_tblsize 4 (count_descrs m (tbl # frametables s) 0) = Some ts"
    by blast
  then have "build_frame_descriptors hash m ((heap s)(ft \<mapsto> Raw)) Alloc_failed (tbl # frametables s) =
      Some (Inl (Out_of_memory, (heap s)(ft \<mapsto> Raw)))"
    by (simp add: build_frame_descriptors_def caml_stat_alloc_def)
  with a show "caml_register_frametable hash m cycles tbl r_link r_ft r_tbl s =
        Some (Inl (Out_of_memory,
                   s\<lparr>heap := (heap s)(ft \<mapsto> Raw), frametables := tbl # frametables s\<rparr>))"
    by (cases r_link) (simp_all add: caml_register_frametable_def cons_def caml_stat_alloc_def)
next
  assume a: "caml_register_frametable hash m cycles tbl r_link r_ft r_tbl s = Some (Inl (e, s_err)) \<and>
    fresh_result (heap s) r_ft \<and> fresh_result (heap s) r_tbl"
  then have err: "caml_register_frametable hash m cycles tbl r_link r_ft r_tbl s = Some (Inl (e, s_err))"
    and fresh: "fresh_result (heap s) r_ft" "fresh_result (heap s) r_tbl" by simp_all
  from register_error_shape [OF err] show "current_frametable s_err = current_frametable s"
    by blast
  from register_error_shape [OF err]
  show "\<forall>p. heap s p \<noteq> None \<longrightarrow> heap s_err p = heap s p"
    using error_heap_keeps_live_blocks [OF _ fresh] by blast
next
  assume fail: "(\<exists>k < length (takeWhile (\<lambda>t. t \<noteq> 0) caml_frametable). r_links k = Alloc_failed) \<or>
    r_ft = Alloc_failed \<or> r_tbl = Alloc_failed"
  show "caml_init_frame_descriptors hash m caml_frametable r_links r_ft r_tbl s \<noteq> Some (Inr s')"
  proof
    assume ok: "caml_init_frame_descriptors hash m caml_frametable r_links r_ft r_tbl s = Some (Inr s')"
    then obtain fts where "init_loop r_links 0 caml_frametable (frametables s) = Inr fts"
      by (auto simp: caml_init_frame_descriptors_def split: sum.splits prod.splits)
    from init_loop_allocs [OF this]
    have "\<forall>k < length (takeWhile (\<lambda>t. t \<noteq> 0) caml_frametable). r_links k \<noteq> Alloc_failed"
      by simp
    with init_success_shape [OF ok] fail show False by auto
  qed
next
  assume a: "caml_init_frame_descriptors hash m caml_frametable r_links r_ft r_tbl s =
      Some (Inl (e, s_err)) \<and>
    fresh_result (heap s) r_ft \<and> fresh_result (heap s) r_tbl"
  then have err: "caml_init_frame_descriptors hash m caml_frametable r_links r_ft r_tbl s =
      Some (Inl (e, s_err))"
    and fresh: "fresh_result (heap s) r_ft" "fresh_result (heap s) r_tbl" by simp_all
  from init_error_shape [OF err] show "current_frametable s_err = current_frametable s"
    by blast
  from init_error_shape [OF err]
  show "\<forall>p. heap s p \<noteq> None \<longrightarrow> heap s_err p = heap s p"
    using error_heap_keeps_live_blocks [OF _ fresh] by blast
next
  assume "caml_register_frametable hash m cycles tbl r_link r_ft r_tbl s = Some (Inr s') \<and>
    r_ft \<noteq> r_tbl"
  then show "\<exists>ft fds hp2 v.
         r_ft = Alloced ft \<and>
         build_frame_descriptors hash m ((heap s)(ft \<mapsto> Raw)) r_tbl (tbl # frametables s) =
           Some (Inr (fds, hp2)) \<and>
         heap s' (current_frametable s') = Some (Version v) \<and> table v = fds \<and>
         heap s' (descriptors fds) = hp2 (descriptors fds)"
    using register_publishes_built_table by blast
next
  assume "caml_init_frame_descriptors hash m caml_frametable r_links r_ft r_tbl s = Some (Inr s') \<and>
    r_ft \<noteq> r_tbl"
  then show "\<exists>ft fds hp2 v.
         r_ft = Alloced ft \<and>
         build_frame_descriptors hash m ((heap s)(ft \<mapsto> Raw)) r_tbl (frametables s') =
           Some (Inr (fds, hp2)) \<and>
         heap s' (current_frametable s') = Some (Version v) \<and> table v = fds \<and>
         heap s' (descriptors fds) = hp2 (descriptors fds)"
    using init_publishes_built_table by blast
qed

theorem allocation_failure_publishes_nothing_witness:
  "caml_register_frametable example_hash example_mem 5 0x20000 Alloc_failed
     (Alloced 0x8100) (Alloced 0x7100) example_s1 = Some (Inl (Out_of_memory, example_s1)) \<and>
   caml_register_frametable example_hash example_mem 5 0x20000 (Alloced 0x6100)
     Alloc_failed (Alloced 0x7100) example_s1 =
     Some (Inl (Out_of_memory, example_s1\<lparr>frametables := [0x20000, 0x10000]\<rparr>)) \<and>
   (\<exists>s_err.
      caml_register_frametable example_hash example_mem 5 0x20000 (Alloced 0x6100)
        (Alloced 0x8100) Alloc_failed example_s1 = Some (Inl (Out_of_memory, s_err)) \<and>
      fresh_result (heap example_s1) (Alloced 0x8100) \<and>
      fresh_result (heap example_s1) Alloc_failed \<and>
      current_frametable s_err = 0x8000 \<and>
      heap s_err 0x8000 = Some (Version example_v1) \<and>
      heap s_err 0x7000 = Some (Array [0x10008, 0x10018, 0x10028, 0, 0, 0, 0, 0])) \<and>
   (\<exists>s_err.
      caml_init_frame_descriptors example_hash example_mem [0x10000, 0] (\<lambda>i. Alloced 0x6000)
        Alloc_failed (Alloced 0x7000) example_s0 = Some (Inl (Out_of_memory, s_err)) \<and>
      current_frametable s_err = 0) \<and>
   (\<exists>fds hp2 v.
      caml_register_frametable example_hash example_mem 5 0x20000 (Alloced 0x6100)
        (Alloced 0x8100) (Alloced 0x7100) example_s1 = Some (Inr example_s2) \<and>
      build_frame_descriptors example_hash example_mem ((heap example_s1)(0x8100 \<mapsto> Raw))
        (Alloced 0x7100) (0x20000 # frametables example_s1) = Some (Inr (fds, hp2)) \<and>
      heap example_s2 (current_frametable example_s2) = Some (Version v) \<and> table v = fds \<and>
      heap example_s2 (descriptors fds) = hp2 (descriptors fds))"
proof -
  note main = allocation_failure_publishes_nothing
  have 1: "caml_register_frametable example_hash example_mem 5 0x20000 Alloc_failed
     (Alloced 0x8100) (Alloced 0x7100) example_s1 = Some (Inl (Out_of_memory, example_s1))"
    using main [of Alloc_failed "Alloced 0x8100" "Alloced 0x7100" example_hash example_mem 5
        "0x20000" example_s1]
    by blast
  have cur: "current_frametable example_s1 \<noteq> 0" "current_frametable example_s1 = 0x8000"
    by (simp_all add: example_s1_def)
  have fts: "frametables example_s1 = [0x10000]" by (simp add: example_s1_def)
  have "caml_register_frametable example_hash example_mem 5 0x20000 (Alloced 0x6100)
     Alloc_failed (Alloced 0x7100) example_s1 =
     Some (Inl (Out_of_memory, example_s1\<lparr>frametables := 0x20000 # frametables example_s1\<rparr>))"
    using main [of "Alloced 0x6100" Alloc_failed "Alloced 0x7100" example_hash example_mem 5
        "0x20000" example_s1] cur(1)
    by blast
  then have 2: "caml_register_frametable example_hash example_mem 5 0x20000 (Alloced 0x6100)
     Alloc_failed (Alloced 0x7100) example_s1 =
     Some (Inl (Out_of_memory, example_s1\<lparr>frametables := [0x20000, 0x10000]\<rparr>))"
    by (simp only: fts)
  let ?s_err = "example_s1\<lparr>heap := (heap example_s1)(0x8100 \<mapsto> Raw),
      frametables := 0x20000 # frametables example_s1\<rparr>"
  have fresh: "fresh_result (heap example_s1) (Alloced 0x8100)"
    "fresh_result (heap example_s1) Alloc_failed"
    by (simp_all add: fresh_result_def example_s1_def)
  have g: "grow_tblsize 4 (count_descrs example_mem (0x20000 # frametables example_s1) 0) \<noteq> None"
    unfolding fts example_tblsize_8' by simp
  have 3: "caml_register_frametable example_hash example_mem 5 0x20000 (Alloced 0x6100)
        (Alloced 0x8100) Alloc_failed example_s1 = Some (Inl (Out_of_memory, ?s_err))"
    using main [of "Alloced 0x6100" "Alloced 0x8100" Alloc_failed example_hash example_mem 5
        "0x20000" example_s1 _ "0x8100"] cur(1) g
    by blast
  have live: "heap example_s1 0x8000 = Some (Version example_v1)"
    "heap example_s1 0x7000 = Some (Array [0x10008, 0x10018, 0x10028, 0, 0, 0, 0, 0])"
    by (simp_all add: example_s1_def)
  from main [of "Alloced 0x6100" "Alloced 0x8100" Alloc_failed example_hash example_mem 5
        "0x20000" example_s1 _ _ Out_of_memory ?s_err] 3 fresh
  have kept: "current_frametable ?s_err = current_frametable example_s1"
    "\<forall>p. heap example_s1 p \<noteq> None \<longrightarrow> heap ?s_err p = heap example_s1 p"
    by blast+
  from kept(2) live have "heap ?s_err 0x8000 = Some (Version example_v1)"
    "heap ?s_err 0x7000 = Some (Array [0x10008, 0x10018, 0x10028, 0, 0, 0, 0, 0])"
    by simp_all
  with 3 fresh kept(1) cur(2) have 4: "\<exists>s_err.
      caml_register_frametable example_hash example_mem 5 0x20000 (Alloced 0x6100)
        (Alloced 0x8100) Alloc_failed example_s1 = Some (Inl (Out_of_memory, s_err)) \<and>
      fresh_result (heap example_s1) (Alloced 0x8100) \<and>
      fresh_result (heap example_s1) Alloc_failed \<and>
      current_frametable s_err = 0x8000 \<and>
      heap s_err 0x8000 = Some (Version example_v1) \<and>
      heap s_err 0x7000 = Some (Array [0x10008, 0x10018, 0x10028, 0, 0, 0, 0, 0])"
    by (intro exI [of _ ?s_err]) simp
  have l: "init_loop (\<lambda>i. Alloced 0x6000) 0 [0x10000, 0] (frametables example_s0) = Inr [0x10000]"
    by (simp add: cons_def example_s0_def)
  have i: "caml_init_frame_descriptors example_hash example_mem [0x10000, 0] (\<lambda>i. Alloced 0x6000)
        Alloc_failed (Alloced 0x7000) example_s0 =
        Some (Inl (Out_of_memory, example_s0\<lparr>frametables := [0x10000]\<rparr>))"
    unfolding caml_init_frame_descriptors_def l
    by (simp add: caml_stat_alloc_def)
  have "current_frametable (example_s0\<lparr>frametables := [0x10000]\<rparr>) = 0"
    by (simp add: example_s0_def)
  with i have 5: "\<exists>s_err.
      caml_init_frame_descriptors example_hash example_mem [0x10000, 0] (\<lambda>i. Alloced 0x6000)
        Alloc_failed (Alloced 0x7000) example_s0 = Some (Inl (Out_of_memory, s_err)) \<and>
      current_frametable s_err = 0"
    by blast
  have ne: "Alloced (0x8100 :: addr) \<noteq> Alloced 0x7100" by simp
  from main [of "Alloced 0x6100" "Alloced 0x8100" "Alloced 0x7100" example_hash example_mem 5
        "0x20000" example_s1 example_s2] example_register ne
  have "\<exists>ft fds hp2 v.
      Alloced 0x8100 = Alloced ft \<and>
      build_frame_descriptors example_hash example_mem ((heap example_s1)(ft \<mapsto> Raw))
        (Alloced 0x7100) (0x20000 # frametables example_s1) = Some (Inr (fds, hp2)) \<and>
      heap example_s2 (current_frametable example_s2) = Some (Version v) \<and> table v = fds \<and>
      heap example_s2 (descriptors fds) = hp2 (descriptors fds)"
    by blast
  with example_register have 6: "\<exists>fds hp2 v.
      caml_register_frametable example_hash example_mem 5 0x20000 (Alloced 0x6100)
        (Alloced 0x8100) (Alloced 0x7100) example_s1 = Some (Inr example_s2) \<and>
      build_frame_descriptors example_hash example_mem ((heap example_s1)(0x8100 \<mapsto> Raw))
        (Alloced 0x7100) (0x20000 # frametables example_s1) = Some (Inr (fds, hp2)) \<and>
      heap example_s2 (current_frametable example_s2) = Some (Version v) \<and> table v = fds \<and>
      heap example_s2 (descriptors fds) = hp2 (descriptors fds)"
    by auto
  from 1 2 4 5 6 show ?thesis by (intro conjI)
qed

subsection \<open>The call in three parts\<close>

lemma caml_get_frame_descrs_split:
  "caml_get_frame_descrs cycles s =
     (case get_load s of
        Inl e \<Rightarrow> Inl (e, s)
      | Inr p \<Rightarrow>
          (case get_compare cycles p s of
             Inl e \<Rightarrow> Inl (e, s)
           | Inr passed \<Rightarrow>
               (if passed
                then (case get_locked p s of
                        Inl es \<Rightarrow> Inl es
                      | Inr s' \<Rightarrow>
                          (case get_return p s' of
                             Inl e \<Rightarrow> Inl (e, s')
                           | Inr t \<Rightarrow> Inr (t, s')))
                else (case get_return p s of
                        Inl e \<Rightarrow> Inl (e, s)
                      | Inr t \<Rightarrow> Inr (t, s)))))"
proof (cases "current_frametable s = 0")
  case True
  then show ?thesis by (simp add: caml_get_frame_descrs_def get_load_def)
next
  case c0: False
  let ?c = "current_frametable s"
  have l: "get_load s = Inr ?c" using c0 by (simp add: get_load_def)
  show ?thesis
  proof (cases "\<exists>ft. heap s ?c = Some (Version ft)")
    case False
    then show ?thesis
      using c0 by (auto simp: caml_get_frame_descrs_def l get_compare_def
          split: option.split obj.split)
  next
    case True
    then obtain ft where cur: "heap s ?c = Some (Version ft)" by blast
    have e: "get_compare cycles ?c s = Inr (free_prev_after_cycle ft < cycles)"
      using cur by (simp add: get_compare_def)
    have r: "get_return ?c s = Inr (table ft)"
      using cur by (simp add: get_return_def)
    show ?thesis
    proof (cases "free_prev_after_cycle ft < cycles")
      case False
      then show ?thesis
        using c0 cur by (simp add: l e r caml_get_frame_descrs_def)
    next
      case lt: True
      show ?thesis
      proof (cases "prev ft = 0")
        case True
        then have "get_locked ?c s = Inr s" using cur by (simp add: get_locked_def)
        then show ?thesis
          using c0 cur lt True by (simp add: l e r caml_get_frame_descrs_def)
      next
        case nz: False
        show ?thesis
        proof (cases "\<exists>old. heap s (prev ft) = Some (Version old)")
          case False
          then have "get_locked ?c s = Inl (Invalid_pointer, s)"
            using cur nz by (auto simp: get_locked_def split: option.split obj.split)
          moreover have "caml_get_frame_descrs cycles s = Inl (Invalid_pointer, s)"
            using False c0 cur lt nz
            by (auto simp: caml_get_frame_descrs_def split: option.split obj.split)
          ultimately show ?thesis by (simp add: l e lt)
        next
          case True
          then obtain old where old: "heap s (prev ft) = Some (Version old)" by blast
          let ?ta = "descriptors (table old)"
          have L: "get_locked ?c s =
            (case caml_stat_free (heap s) ?ta of
               Inl e \<Rightarrow> Inl (e, s)
             | Inr hp1 \<Rightarrow>
                 (case caml_stat_free hp1 (prev ft) of
                    Inl e \<Rightarrow> Inl (e, s\<lparr>heap := hp1\<rparr>)
                  | Inr hp2 \<Rightarrow>
                      (case hp2 ?c of
                         Some (Version ft') \<Rightarrow>
                           Inr (s\<lparr>heap := hp2(?c \<mapsto> Version
                                  (ft'\<lparr>prev := 0, free_prev_after_cycle := No_need_to_free\<rparr>))\<rparr>)
                       | _ \<Rightarrow> Inl (Invalid_pointer, s\<lparr>heap := hp2\<rparr>))))"
            unfolding get_locked_def
            by (simp only: cur nz old if_True if_False not_False_eq_True option.case obj.case)
          have G: "caml_get_frame_descrs cycles s =
            (case caml_stat_free (heap s) ?ta of
               Inl e \<Rightarrow> Inl (e, s)
             | Inr hp1 \<Rightarrow>
                 (case caml_stat_free hp1 (prev ft) of
                    Inl e \<Rightarrow> Inl (e, s\<lparr>heap := hp1\<rparr>)
                  | Inr hp2 \<Rightarrow>
                      (case hp2 ?c of
                         Some (Version ft') \<Rightarrow>
                           Inr (table ft',
                                s\<lparr>heap := hp2(?c \<mapsto> Version
                                  (ft'\<lparr>prev := 0, free_prev_after_cycle := No_need_to_free\<rparr>))\<rparr>)
                       | _ \<Rightarrow> Inl (Invalid_pointer, s\<lparr>heap := hp2\<rparr>))))"
            unfolding caml_get_frame_descrs_def
            by (simp only: c0 cur lt nz old if_True if_False not_False_eq_True option.case obj.case)
          show ?thesis
            unfolding G
            by (auto simp: l e lt L get_return_def split: sum.split option.split obj.split)
        qed
      qed
    qed
  qed
qed

lemma get_locked_null_prev:
  assumes "heap s p = Some (Version v)" and "prev v = 0"
  shows "get_locked p s = Inr s"
  using assms by (simp add: get_locked_def)

lemma get_locked_frees:
  assumes inv: "version_inv s" and at_p: "heap s p = Some (Version v)"
    and nz: "prev v \<noteq> 0" and old: "heap s (prev v) = Some (Version old)"
  shows "get_locked p s =
     Inr (s\<lparr>heap := (heap s)(descriptors (table old) := None, prev v := None,
                  p \<mapsto> Version (v\<lparr>prev := 0, free_prev_after_cycle := No_need_to_free\<rparr>))\<rparr>)"
proof -
  let ?ta = "descriptors (table old)"
  from version_invD(4) [OF inv old] obtain d where ta: "heap s ?ta = Some (Array d)" by blast
  have ne1: "prev v \<noteq> ?ta" using old ta by auto
  have ne2: "p \<noteq> ?ta" using at_p ta by auto
  have ne3: "prev v \<noteq> p" using version_invD(9) [OF inv at_p nz] .
  have f1: "caml_stat_free (heap s) ?ta = Inr ((heap s)(?ta := None))"
    using ta by (simp add: caml_stat_free_def)
  have f2: "caml_stat_free ((heap s)(?ta := None)) (prev v) =
      Inr ((heap s)(?ta := None, prev v := None))"
    using old ne1 by (simp add: caml_stat_free_def)
  have rd: "((heap s)(?ta := None, prev v := None)) p = Some (Version v)"
    using at_p ne2 ne3 by simp
  show ?thesis
    unfolding get_locked_def
    by (simp only: at_p nz old f1 f2 rd if_True if_False not_False_eq_True
        option.case obj.case sum.case)
qed

lemma version_inv_locked:
  assumes inv: "version_inv s" and run: "get_locked p s = Inr s'"
  shows "version_inv s'"
proof -
  let ?c = "current_frametable s"
  from run obtain v where at_p: "heap s p = Some (Version v)"
    by (auto simp: get_locked_def split: option.splits obj.splits)
  show ?thesis
  proof (cases "prev v = 0")
    case True
    from get_locked_null_prev [OF at_p True] run have "s' = s" by simp
    with inv show ?thesis by simp
  next
    case nz: False
    from version_invD(5) [OF inv at_p nz] obtain old where
      old: "heap s (prev v) = Some (Version old)" by blast
    let ?o = "prev v"
    let ?ta = "descriptors (table old)"
    let ?v' = "v\<lparr>prev := 0, free_prev_after_cycle := No_need_to_free\<rparr>"
    from get_locked_frees [OF inv at_p nz old] run
    have s': "s' = s\<lparr>heap := (heap s)(?ta := None, ?o := None, p \<mapsto> Version ?v')\<rparr>"
      by simp
    from version_invD(4) [OF inv old] obtain d where ta: "heap s ?ta = Some (Array d)" by blast
    from version_invD(2) [OF inv] obtain vc where cur: "heap s ?c = Some (Version vc)" by blast
    have c0: "?c \<noteq> 0" using version_invD(1) [OF inv] .
    have ne1: "?o \<noteq> ?ta" using old ta by auto
    have ne2: "p \<noteq> ?ta" using at_p ta by auto
    have ne3: "?o \<noteq> p" using version_invD(9) [OF inv at_p nz] .
    have ne4: "?o \<noteq> ?c" using version_invD(6) [OF inv at_p nz] .
    have ne5: "?c \<noteq> ?ta" using cur ta by auto
    have cur': "current_frametable s' = ?c" by (simp add: s')
    have at_p': "heap s' p = Some (Version ?v')" by (simp add: s')
    have other: "heap s' q = heap s q" if "q \<noteq> p" "q \<noteq> ?o" "q \<noteq> ?ta" for q
      using that by (simp add: s')
    have gone: "heap s' ?o = None" "heap s' ?ta = None"
      using ne1 ne2 ne3 by (simp_all add: s')
    have cases: "(q = p \<and> w = ?v') \<or>
        (q \<noteq> p \<and> q \<noteq> ?o \<and> q \<noteq> ?ta \<and> heap s q = Some (Version w))"
      if "heap s' q = Some (Version w)" for q w
      using that at_p' gone other by (cases "q = p"; cases "q = ?o"; cases "q = ?ta") auto
    have node_kept: "\<exists>w'. heap s' q = Some (Version w')"
      if "heap s q = Some (Version w)" "q \<noteq> ?o" for q w
    proof (cases "q = p")
      case True
      with at_p' show ?thesis by simp
    next
      case False
      moreover have "q \<noteq> ?ta" using that(1) ta by auto
      ultimately show ?thesis using other that by simp
    qed
    have tbl_kept: "\<exists>descr. heap s' (descriptors (table w)) = Some (Array descr)"
      if w: "heap s q = Some (Version w)" and q: "q \<noteq> ?o" for q w
    proof -
      from version_invD(4) [OF inv w] obtain dw where
        dw: "heap s (descriptors (table w)) = Some (Array dw)" by blast
      have "descriptors (table w) \<noteq> ?ta"
        using version_invD(7) [OF inv w old q] .
      moreover have "descriptors (table w) \<noteq> p" using dw at_p by auto
      moreover have "descriptors (table w) \<noteq> ?o" using dw old by auto
      ultimately show ?thesis using other dw by simp
    qed
    have prev_kept: "\<exists>o'. heap s' (prev w) = Some (Version o')"
      if w: "heap s q = Some (Version w)" and q: "q \<noteq> p" and nzw: "prev w \<noteq> 0" for q w
    proof -
      from version_invD(5) [OF inv w nzw] obtain o' where
        o': "heap s (prev w) = Some (Version o')" by blast
      have "prev w \<noteq> ?o" using version_invD(8) [OF inv w at_p q nzw] .
      with o' show ?thesis by (rule node_kept)
    qed
    show ?thesis
    proof (rule version_invI)
      show "current_frametable s' \<noteq> 0" using c0 by (simp add: cur')
      show "\<exists>w. heap s' (current_frametable s') = Some (Version w)"
        unfolding cur' using cur ne4 [symmetric] by (rule node_kept)
    next
      fix q w assume qw: "heap s' q = Some (Version w)"
      from cases [OF qw] show "marker_matches_prev w"
      proof
        assume "q = p \<and> w = ?v'"
        then show ?thesis by (simp add: marker_matches_prev_def)
      next
        assume "q \<noteq> p \<and> q \<noteq> ?o \<and> q \<noteq> ?ta \<and> heap s q = Some (Version w)"
        then show ?thesis using version_invD(3) [OF inv] by blast
      qed
      from cases [OF qw] show "\<exists>descr. heap s' (descriptors (table w)) = Some (Array descr)"
      proof
        assume "q = p \<and> w = ?v'"
        then show ?thesis using tbl_kept [OF at_p] ne3 by auto
      next
        assume "q \<noteq> p \<and> q \<noteq> ?o \<and> q \<noteq> ?ta \<and> heap s q = Some (Version w)"
        then show ?thesis using tbl_kept by blast
      qed
    next
      fix q w assume qw: "heap s' q = Some (Version w)" and nzw: "prev w \<noteq> 0"
      from cases [OF qw] show "\<exists>o'. heap s' (prev w) = Some (Version o')"
      proof
        assume "q = p \<and> w = ?v'"
        then show ?thesis using nzw by simp
      next
        assume "q \<noteq> p \<and> q \<noteq> ?o \<and> q \<noteq> ?ta \<and> heap s q = Some (Version w)"
        then show ?thesis using prev_kept nzw by blast
      qed
      from cases [OF qw] show "prev w \<noteq> current_frametable s'"
      proof
        assume "q = p \<and> w = ?v'"
        then show ?thesis using nzw by simp
      next
        assume "q \<noteq> p \<and> q \<noteq> ?o \<and> q \<noteq> ?ta \<and> heap s q = Some (Version w)"
        then show ?thesis using version_invD(6) [OF inv _ nzw] by (auto simp: cur')
      qed
      from cases [OF qw] show "prev w \<noteq> q"
      proof
        assume "q = p \<and> w = ?v'"
        then show ?thesis using nzw by simp
      next
        assume "q \<noteq> p \<and> q \<noteq> ?o \<and> q \<noteq> ?ta \<and> heap s q = Some (Version w)"
        then show ?thesis using version_invD(9) [OF inv _ nzw] by blast
      qed
    next
      fix q r w x
      assume qw: "heap s' q = Some (Version w)" and rx: "heap s' r = Some (Version x)"
        and ne: "q \<noteq> r"
      have "table ?v' = table v" by simp
      with cases [OF qw] cases [OF rx] ne
      show "descriptors (table w) \<noteq> descriptors (table x)"
        using version_invD(7) [OF inv _ _ ne] at_p by (elim disjE conjE) auto
    next
      fix q r w x
      assume qw: "heap s' q = Some (Version w)" and rx: "heap s' r = Some (Version x)"
        and ne: "q \<noteq> r" and nzw: "prev w \<noteq> 0"
      from cases [OF qw] cases [OF rx] ne nzw
      show "prev w \<noteq> prev x"
        using version_invD(8) [OF inv _ _ ne nzw] by (elim disjE conjE) auto
    qed
  qed
qed

subsection \<open>Every reachable configuration\<close>

lemma reachable_inv:
  assumes "reachable hash m c"
  shows "version_inv (globals c)"
  using assms
proof (induction rule: reachable.induct)
  case (init caml_frametable r_links ft a s0 s cycles)
  from init(1) init(3) init(4) init(5) init(6) have "version_inv s" by (rule version_inv_init)
  then show ?case by simp
next
  case (register c tbl r_link ft a s')
  from register.IH register.hyps(3) register.hyps(4) register.hyps(5) register.hyps(6)
    register.hyps(2)
  have "version_inv s'" by (rule version_inv_register)
  then show ?case by simp
next
  case (cycle c)
  then show ?case by simp
next
  case (load c p)
  then show ?case by simp
next
  case (compare c p passed)
  then show ?case by simp
next
  case (locked c p s')
  from locked.IH locked.hyps(3) have "version_inv s'" by (rule version_inv_locked)
  then show ?case by simp
qed

lemma get_locked_returns:
  assumes inv: "version_inv s" and at_p: "heap s p = Some (Version v)"
  shows "\<exists>s'. get_locked p s = Inr s'"
proof (cases "prev v = 0")
  case True
  with at_p show ?thesis by (simp add: get_locked_null_prev)
next
  case False
  from version_invD(5) [OF inv at_p False] obtain old where
    "heap s (prev v) = Some (Version old)" by blast
  from get_locked_frees [OF inv at_p False this] show ?thesis by blast
qed

lemma get_locked_error:
  assumes inv: "version_inv s" and err: "get_locked p s = Inl (e, s')"
  shows "e = Invalid_pointer \<and> s' = s \<and> (\<forall>v. heap s p \<noteq> Some (Version v))"
proof -
  have none: "\<forall>v. heap s p \<noteq> Some (Version v)"
  proof (intro allI notI)
    fix v assume "heap s p = Some (Version v)"
    from get_locked_returns [OF inv this] err show False by auto
  qed
  then have "get_locked p s = Inl (Invalid_pointer, s)"
    by (auto simp: get_locked_def split: option.split obj.split)
  with err none show ?thesis by simp
qed

lemma get_locked_after:
  assumes inv: "version_inv s" and run: "get_locked p s = Inr s'"
  shows "(\<exists>v'. heap s' p = Some (Version v') \<and> prev v' = 0 \<and>
            free_prev_after_cycle v' = No_need_to_free) \<and>
         get_locked p s' = Inr s'"
proof -
  from run obtain v where at_p: "heap s p = Some (Version v)"
    by (auto simp: get_locked_def split: option.splits obj.splits)
  have node: "\<exists>v'. heap s' p = Some (Version v') \<and> prev v' = 0 \<and>
            free_prev_after_cycle v' = No_need_to_free"
  proof (cases "prev v = 0")
    case True
    from get_locked_null_prev [OF at_p True] run have "s' = s" by simp
    moreover from version_invD(3) [OF inv at_p] True
    have "free_prev_after_cycle v = No_need_to_free" by (simp add: marker_matches_prev_def)
    ultimately show ?thesis using at_p True by simp
  next
    case False
    from version_invD(5) [OF inv at_p False] obtain old where
      old: "heap s (prev v) = Some (Version old)" by blast
    from get_locked_frees [OF inv at_p False old] run show ?thesis by auto
  qed
  then obtain v' where "heap s' p = Some (Version v')" "prev v' = 0" by blast
  then have "get_locked p s' = Inr s'" by (rule get_locked_null_prev)
  with node show ?thesis by simp
qed

lemma get_frame_descrs_reachable:
  assumes r: "reachable hash m c"
  shows "\<exists>fds s'. caml_get_frame_descrs (caml_major_cycles_completed c) (globals c) = Inr (fds, s') \<and>
     reachable hash m (c\<lparr>globals := s'\<rparr>)"
proof -
  let ?s = "globals c"
  let ?n = "caml_major_cycles_completed c"
  let ?p = "current_frametable ?s"
  from reachable_inv [OF r] have inv: "version_inv ?s" .
  from version_invD(1) [OF inv] have l: "get_load ?s = Inr ?p" by (simp add: get_load_def)
  from version_invD(2) [OF inv] obtain v where cur: "heap ?s ?p = Some (Version v)" by blast
  have cmp: "get_compare ?n ?p ?s = Inr (free_prev_after_cycle v < ?n)"
    using cur by (simp add: get_compare_def)
  have r1: "reachable hash m (c\<lparr>loaded := ?p # loaded c\<rparr>)"
    using r l by (rule reachable.load)
  show ?thesis
  proof (cases "free_prev_after_cycle v < ?n")
    case False
    have "caml_get_frame_descrs ?n ?s = Inr (table v, ?s)"
      unfolding caml_get_frame_descrs_split using cur False by (simp add: l cmp get_return_def)
    moreover have "c\<lparr>globals := ?s\<rparr> = c" by simp
    ultimately show ?thesis using r by auto
  next
    case True
    from get_locked_returns [OF inv cur] obtain s' where run: "get_locked ?p ?s = Inr s'" by blast
    from get_locked_after [OF inv run] obtain v' where at': "heap s' ?p = Some (Version v')"
      by blast
    have call: "caml_get_frame_descrs ?n ?s = Inr (table v', s')"
      unfolding caml_get_frame_descrs_split using True by (simp add: l cmp run at' get_return_def)
    have "reachable hash m
       ((c\<lparr>loaded := ?p # loaded c\<rparr>)\<lparr>loaded := remove1 ?p (loaded (c\<lparr>loaded := ?p # loaded c\<rparr>)),
          waiting := (if True then ?p # waiting (c\<lparr>loaded := ?p # loaded c\<rparr>)
                      else waiting (c\<lparr>loaded := ?p # loaded c\<rparr>))\<rparr>)"
      using r1 by (rule reachable.compare) (simp_all add: cmp True)
    then have r2: "reachable hash m (c\<lparr>waiting := ?p # waiting c\<rparr>)" by simp
    have "reachable hash m
       ((c\<lparr>waiting := ?p # waiting c\<rparr>)\<lparr>globals := s',
          waiting := remove1 ?p (waiting (c\<lparr>waiting := ?p # waiting c\<rparr>))\<rparr>)"
      using r2 by (rule reachable.locked) (simp_all add: run)
    then have "reachable hash m (c\<lparr>globals := s'\<rparr>)" by simp
    with call show ?thesis by blast
  qed
qed

text \<open>
  C10.  Take a configuration reached by an initialization followed, in any interleaving,
  by registrations, completed cycles and the steps of threads inside
  \<^verbatim>\<open>caml_get_frame_descrs\<close>, with fresh blocks from the allocator and a counter of
  completed cycles that is not \<^verbatim>\<open>No_need_to_free\<close> when a registration reads it.
  There the invariant of the version nodes holds: for every node the marker is
  \<^verbatim>\<open>No_need_to_free\<close> exactly when \<^verbatim>\<open>prev\<close> is \<^verbatim>\<open>NULL\<close>, and for such a node the
  comparison with the counter fails.
  Take a thread that has passed the comparison and comes to its locked section.  If its
  \<^verbatim>\<open>ft\<close> is a node the section returns, and it changes nothing when it finds
  \<^verbatim>\<open>ft->prev\<close> to be \<^verbatim>\<open>NULL\<close>.  The section never calls \<^verbatim>\<open>caml_stat_free\<close> on a
  block that is not live: the one error it can stop on is that \<^verbatim>\<open>ft\<close> itself is no
  longer a node, and then nothing has changed.  After the section the configuration is a
  reachable one, the invariant of the nodes holds, \<^verbatim>\<open>ft\<close> has a \<^verbatim>\<open>NULL\<close> \<^verbatim>\<open>prev\<close> and the
  marker \<^verbatim>\<open>No_need_to_free\<close>, and one more locked section for the same \<^verbatim>\<open>ft\<close> (that of
  another thread that passed the comparison before the predecessor was freed) changes
  nothing: the predecessor is freed at most once.  A whole call of
  \<^verbatim>\<open>caml_get_frame_descrs\<close> returns and leaves a reachable configuration.
\<close>

theorem version_chain_invariant:
  assumes "reachable hash m c"
  shows "version_inv (globals c) \<and>
     (\<forall>p v. heap (globals c) p = Some (Version v) \<longrightarrow>
        ((free_prev_after_cycle v = No_need_to_free) = (prev v = 0)) \<and>
        (prev v = 0 \<longrightarrow> \<not> free_prev_after_cycle v < caml_major_cycles_completed c)) \<and>
     (\<forall>p \<in> set (waiting c).
        (\<forall>v. heap (globals c) p = Some (Version v) \<longrightarrow>
           (\<exists>s'. get_locked p (globals c) = Inr s') \<and>
           (prev v = 0 \<longrightarrow> get_locked p (globals c) = Inr (globals c))) \<and>
        (\<forall>e s'. get_locked p (globals c) = Inl (e, s') \<longrightarrow>
           e = Invalid_pointer \<and> s' = globals c \<and>
           (\<forall>v. heap (globals c) p \<noteq> Some (Version v))) \<and>
        (\<forall>s'. get_locked p (globals c) = Inr s' \<longrightarrow>
           reachable hash m (c\<lparr>globals := s', waiting := remove1 p (waiting c)\<rparr>) \<and>
           version_inv s' \<and>
           (\<exists>v'. heap s' p = Some (Version v') \<and> prev v' = 0 \<and>
                 free_prev_after_cycle v' = No_need_to_free) \<and>
           get_locked p s' = Inr s')) \<and>
     (\<exists>fds s'. caml_get_frame_descrs (caml_major_cycles_completed c) (globals c) = Inr (fds, s') \<and>
        reachable hash m (c\<lparr>globals := s'\<rparr>))"
proof -
  let ?s = "globals c"
  from reachable_inv [OF assms] have inv: "version_inv ?s" .
  have nodes: "\<forall>p v. heap ?s p = Some (Version v) \<longrightarrow>
        ((free_prev_after_cycle v = No_need_to_free) = (prev v = 0)) \<and>
        (prev v = 0 \<longrightarrow> \<not> free_prev_after_cycle v < caml_major_cycles_completed c)"
  proof (intro allI impI conjI)
    fix p v assume at_p: "heap ?s p = Some (Version v)"
    from version_invD(3) [OF inv at_p]
    show iff: "(free_prev_after_cycle v = No_need_to_free) = (prev v = 0)"
      by (simp only: marker_matches_prev_def)
    assume "prev v = 0"
    with iff have "free_prev_after_cycle v = - 1" by (simp add: No_need_to_free_def)
    then show "\<not> free_prev_after_cycle v < caml_major_cycles_completed c"
      by (simp add: not_less)
  qed
  have callers: "\<forall>p \<in> set (waiting c).
        (\<forall>v. heap ?s p = Some (Version v) \<longrightarrow>
           (\<exists>s'. get_locked p ?s = Inr s') \<and>
           (prev v = 0 \<longrightarrow> get_locked p ?s = Inr ?s)) \<and>
        (\<forall>e s'. get_locked p ?s = Inl (e, s') \<longrightarrow>
           e = Invalid_pointer \<and> s' = ?s \<and> (\<forall>v. heap ?s p \<noteq> Some (Version v))) \<and>
        (\<forall>s'. get_locked p ?s = Inr s' \<longrightarrow>
           reachable hash m (c\<lparr>globals := s', waiting := remove1 p (waiting c)\<rparr>) \<and>
           version_inv s' \<and>
           (\<exists>v'. heap s' p = Some (Version v') \<and> prev v' = 0 \<and>
                 free_prev_after_cycle v' = No_need_to_free) \<and>
           get_locked p s' = Inr s')"
  proof (intro ballI conjI allI impI)
    fix p v assume at_p: "heap ?s p = Some (Version v)"
    from get_locked_returns [OF inv at_p] show "\<exists>s'. get_locked p ?s = Inr s'" .
    assume "prev v = 0"
    with at_p show "get_locked p ?s = Inr ?s" by (rule get_locked_null_prev)
  next
    fix p e s' assume err: "get_locked p ?s = Inl (e, s')"
    from get_locked_error [OF inv err]
    show "e = Invalid_pointer" "s' = ?s" by blast+
    fix v from get_locked_error [OF inv err] show "heap ?s p \<noteq> Some (Version v)" by blast
  next
    fix p s' assume w: "p \<in> set (waiting c)" and run: "get_locked p ?s = Inr s'"
    from assms w run
    show "reachable hash m (c\<lparr>globals := s', waiting := remove1 p (waiting c)\<rparr>)"
      by (rule reachable.locked)
    from inv run show "version_inv s'" by (rule version_inv_locked)
    from get_locked_after [OF inv run]
    show "\<exists>v'. heap s' p = Some (Version v') \<and> prev v' = 0 \<and>
                 free_prev_after_cycle v' = No_need_to_free"
      "get_locked p s' = Inr s'" by blast+
  qed
  from inv nodes callers get_frame_descrs_reachable [OF assms] show ?thesis by (intro conjI)
qed

subsection \<open>The example run with two threads\<close>

lemma example_init_links:
  "caml_init_frame_descriptors example_hash example_mem [0x10000, 0] example_links
     (Alloced 0x8000) (Alloced 0x7000) example_s0 = Some (Inr example_s1)"
proof -
  have e: "example_links = (\<lambda>i. Alloced 0x6000)" by (simp add: fun_eq_iff example_links_def)
  show ?thesis unfolding e by (rule example_init)
qed

lemma example_register_max:
  "caml_register_frametable example_hash example_mem No_need_to_free 0x20000 (Alloced 0x6100)
     (Alloced 0x8100) (Alloced 0x7100) example_s1 = Some (Inr example_s2_max)"
proof -
  have c: "cons (Alloced 0x6100) 0x20000 (frametables example_s1) = Inr [0x20000, 0x10000]"
    by (simp add: cons_def example_s1_def)
  have cur: "current_frametable example_s1 \<noteq> 0" by (simp add: example_s1_def)
  show ?thesis
    unfolding caml_register_frametable_def c
    by (simp add: cur caml_stat_alloc_def example_build_2 example_s2_max_def example_v2_max_def)
      (simp add: example_s1_def)
qed

lemma example_locked_frees: "get_locked 0x8100 example_s2 = Inr example_s3"
  unfolding get_locked_def
  by (simp add: example_s2_def example_s1_def example_s3_def example_v2_def example_v1_def
      caml_stat_free_def No_need_to_free_def)

lemma example_reachable_1:
  "reachable example_hash example_mem
     \<lparr>globals = example_s1, caml_major_cycles_completed = 5, loaded = [], waiting = []\<rparr>"
proof (rule reachable.init [OF example_init])
  show "current_frametable example_s0 = 0" by (simp add: example_s0_def)
  show "\<forall>p v. heap example_s0 p \<noteq> Some (Version v)" by (simp add: example_s0_def)
  show "fresh_result (heap example_s0) (Alloced 0x8000)"
    by (simp add: fresh_result_def example_s0_def)
  show "fresh_result (heap example_s0) (Alloced 0x7000)"
    by (simp add: fresh_result_def example_s0_def)
  show "(0x8000 :: addr) \<noteq> 0x7000" by simp
qed

lemma example_reachable_2:
  "reachable example_hash example_mem
     \<lparr>globals = example_s2, caml_major_cycles_completed = 5, loaded = [], waiting = []\<rparr>"
proof -
  let ?c = "\<lparr>globals = example_s1, caml_major_cycles_completed = 5, loaded = [], waiting = []\<rparr>"
  have "reachable example_hash example_mem (?c\<lparr>globals := example_s2\<rparr>)"
  proof (rule reachable.register [OF example_reachable_1])
    show "caml_major_cycles_completed ?c \<noteq> No_need_to_free" by (simp add: No_need_to_free_def)
    show "caml_register_frametable example_hash example_mem (caml_major_cycles_completed ?c)
        0x20000 (Alloced 0x6100) (Alloced 0x8100) (Alloced 0x7100) (globals ?c) =
        Some (Inr example_s2)"
      using example_register by simp
    show "fresh_result (heap (globals ?c)) (Alloced 0x8100)"
      by (simp add: fresh_result_def example_s1_def)
    show "fresh_result (heap (globals ?c)) (Alloced 0x7100)"
      by (simp add: fresh_result_def example_s1_def)
    show "(0x8100 :: addr) \<noteq> 0x7100" by simp
  qed
  then show ?thesis by simp
qed

lemma example_reachable_3:
  "reachable example_hash example_mem
     \<lparr>globals = example_s2, caml_major_cycles_completed = 6, loaded = [], waiting = []\<rparr>"
proof -
  let ?c = "\<lparr>globals = example_s2, caml_major_cycles_completed = 5, loaded = [], waiting = []\<rparr>"
  have "reachable example_hash example_mem
      (?c\<lparr>caml_major_cycles_completed := caml_major_cycles_completed ?c + 1\<rparr>)"
    by (rule reachable.cycle [OF example_reachable_2])
  then show ?thesis by simp
qed

lemma example_reachable_4:
  "reachable example_hash example_mem
     \<lparr>globals = example_s2, caml_major_cycles_completed = 6, loaded = [0x8100, 0x8100],
      waiting = []\<rparr>"
proof -
  let ?c = "\<lparr>globals = example_s2, caml_major_cycles_completed = 6, loaded = [], waiting = []\<rparr>"
  have l: "get_load example_s2 = Inr 0x8100" by (simp add: get_load_def example_s2_def)
  have "reachable example_hash example_mem (?c\<lparr>loaded := 0x8100 # loaded ?c\<rparr>)"
    by (rule reachable.load [OF example_reachable_3]) (simp add: l)
  then have "reachable example_hash example_mem
      ((?c\<lparr>loaded := 0x8100 # loaded ?c\<rparr>)\<lparr>loaded := 0x8100 # loaded (?c\<lparr>loaded := 0x8100 # loaded ?c\<rparr>)\<rparr>)"
    by (rule reachable.load) (simp add: l)
  then show ?thesis by simp
qed

lemma example_reachable_c2: "reachable example_hash example_mem example_c2"
proof -
  let ?c = "\<lparr>globals = example_s2, caml_major_cycles_completed = 6, loaded = [0x8100, 0x8100],
      waiting = []\<rparr>"
  let ?d = "\<lparr>globals = example_s2, caml_major_cycles_completed = 6, loaded = [0x8100],
      waiting = [0x8100]\<rparr>"
  have cmp: "get_compare 6 0x8100 example_s2 = Inr True"
    by (simp add: get_compare_def example_s2_def example_v2_def)
  have "reachable example_hash example_mem
      (?c\<lparr>loaded := remove1 0x8100 (loaded ?c),
           waiting := (if True then 0x8100 # waiting ?c else waiting ?c)\<rparr>)"
    by (rule reachable.compare [OF example_reachable_4]) (simp_all add: cmp)
  then have d: "reachable example_hash example_mem ?d" by simp
  have "reachable example_hash example_mem
      (?d\<lparr>loaded := remove1 0x8100 (loaded ?d),
           waiting := (if True then 0x8100 # waiting ?d else waiting ?d)\<rparr>)"
    by (rule reachable.compare [OF d]) (simp_all add: cmp)
  then show ?thesis by (simp add: example_c2_def)
qed

text \<open>
  The run of two threads: both wait with \<^verbatim>\<open>ft\<close> at \<open>0x8100\<close>; the locked section of the
  first frees the node \<open>0x8000\<close> and its array \<open>0x7000\<close>; the second then finds
  \<^verbatim>\<open>ft->prev\<close> to be \<^verbatim>\<open>NULL\<close> and frees nothing.
\<close>

theorem version_chain_invariant_witness:
  "reachable example_hash example_mem example_c2 \<and>
   heap example_s2 0x8100 = Some (Version example_v2) \<and>
   free_prev_after_cycle example_v2 \<noteq> No_need_to_free \<and> prev example_v2 \<noteq> 0 \<and>
   heap example_s2 0x8000 = Some (Version example_v1) \<and>
   free_prev_after_cycle example_v1 = No_need_to_free \<and> prev example_v1 = 0 \<and>
   waiting example_c2 = [0x8100, 0x8100] \<and>
   get_locked 0x8100 example_s2 = Inr example_s3 \<and>
   heap example_s3 0x8000 = None \<and> heap example_s3 0x7000 = None \<and>
   reachable example_hash example_mem example_c3 \<and>
   waiting example_c3 = [0x8100] \<and>
   heap example_s3 0x8100 =
     Some (Version (example_v2\<lparr>prev := 0, free_prev_after_cycle := No_need_to_free\<rparr>)) \<and>
   get_locked 0x8100 example_s3 = Inr example_s3 \<and>
   caml_get_frame_descrs 6 example_s2 = Inr (\<lparr>descriptors = 0x7100, mask_fd = 7\<rparr>, example_s3)"
proof -
  note main2 = version_chain_invariant [OF example_reachable_c2]
  have w2: "waiting example_c2 = [0x8100, 0x8100]" "globals example_c2 = example_s2"
    by (simp_all add: example_c2_def)
  have nodes: "heap example_s2 0x8100 = Some (Version example_v2)"
    "heap example_s2 0x8000 = Some (Version example_v1)"
    by (simp_all add: example_s2_def example_s1_def)
  from main2 nodes have
    "(free_prev_after_cycle example_v2 = No_need_to_free) = (prev example_v2 = 0)"
    "(free_prev_after_cycle example_v1 = No_need_to_free) = (prev example_v1 = 0)"
    unfolding w2 by blast+
  moreover have "prev example_v2 \<noteq> 0" "prev example_v1 = 0"
    by (simp_all add: example_v2_def example_v1_def)
  ultimately have markers: "free_prev_after_cycle example_v2 \<noteq> No_need_to_free"
    "prev example_v2 \<noteq> 0" "free_prev_after_cycle example_v1 = No_need_to_free"
    "prev example_v1 = 0" by simp_all
  have in2: "0x8100 \<in> set (waiting example_c2)" by (simp add: w2)
  from main2 in2 have
    "\<forall>s'. get_locked 0x8100 (globals example_c2) = Inr s' \<longrightarrow>
       reachable example_hash example_mem
         (example_c2\<lparr>globals := s', waiting := remove1 0x8100 (waiting example_c2)\<rparr>)"
    by blast
  with example_locked_frees have
    "reachable example_hash example_mem
       (example_c2\<lparr>globals := example_s3, waiting := remove1 0x8100 (waiting example_c2)\<rparr>)"
    by (simp add: w2)
  moreover have "example_c2\<lparr>globals := example_s3, waiting := remove1 0x8100 (waiting example_c2)\<rparr> =
      example_c3"
    by (simp add: example_c2_def example_c3_def)
  ultimately have r3: "reachable example_hash example_mem example_c3" by simp
  note main3 = version_chain_invariant [OF r3]
  have w3: "waiting example_c3 = [0x8100]" "globals example_c3 = example_s3"
    by (simp_all add: example_c3_def)
  have at3: "heap example_s3 0x8100 =
     Some (Version (example_v2\<lparr>prev := 0, free_prev_after_cycle := No_need_to_free\<rparr>))"
    "heap example_s3 0x8000 = None" "heap example_s3 0x7000 = None"
    by (simp_all add: example_s3_def example_s2_def)
  have in3: "0x8100 \<in> set (waiting example_c3)" by (simp add: w3)
  have p0: "prev (example_v2\<lparr>prev := 0, free_prev_after_cycle := No_need_to_free\<rparr>) = 0" by simp
  from main3 in3 have
    "\<forall>v. heap (globals example_c3) 0x8100 = Some (Version v) \<longrightarrow> prev v = 0 \<longrightarrow>
       get_locked 0x8100 (globals example_c3) = Inr (globals example_c3)"
    by blast
  with at3(1) p0 have again: "get_locked 0x8100 example_s3 = Inr example_s3"
    unfolding w3 by blast
  from example_reachable_c2 nodes markers w2(1) example_locked_frees at3 r3 w3(1) again
    example_get_frees
  show ?thesis by (intro conjI)
qed

text \<open>
  A registration that reads the counter when it is \<^verbatim>\<open>(uintnat)-1\<close> stores that value as
  the marker of the new node, whose \<^verbatim>\<open>prev\<close> is the node of the initialization: the
  marker is \<^verbatim>\<open>No_need_to_free\<close> and \<^verbatim>\<open>prev\<close> is not \<^verbatim>\<open>NULL\<close>.
\<close>

theorem version_chain_invariant_counterexample:
  "caml_init_frame_descriptors example_hash example_mem [0x10000, 0] example_links
     (Alloced 0x8000) (Alloced 0x7000) example_s0 = Some (Inr example_s1) \<and>
   caml_register_frametable example_hash example_mem No_need_to_free 0x20000 (Alloced 0x6100)
     (Alloced 0x8100) (Alloced 0x7100) example_s1 = Some (Inr example_s2_max) \<and>
   heap example_s2_max 0x8100 = Some (Version example_v2_max) \<and>
   free_prev_after_cycle example_v2_max = No_need_to_free \<and>
   prev example_v2_max = 0x8000 \<and> prev example_v2_max \<noteq> 0"
proof -
  have "heap example_s2_max 0x8100 = Some (Version example_v2_max)"
    by (simp add: example_s2_max_def)
  moreover have "free_prev_after_cycle example_v2_max = No_need_to_free"
    "prev example_v2_max = 0x8000" by (simp_all add: example_v2_max_def)
  moreover have "prev example_v2_max \<noteq> 0" by (simp add: example_v2_max_def)
  ultimately show ?thesis using example_init_links example_register_max by (intro conjI)
qed

end
